theory Spec2Isabelle
  imports Complex_Main "HOL-Library.Multiset" "HOL-Library.Sublist"
begin

section \<open>JavaScript numbers\<close>

text \<open>
  A JavaScript \<open>number\<close> is modelled as a real number or one of the three special values.
  Arithmetic on finite values is exact (no rounding, overflow or underflow, and no signed
  zero); the special values follow the IEEE rules that JavaScript uses.
\<close>

datatype jsnum = Num real | PInf | NInf | NaN

fun isFinite :: "jsnum \<Rightarrow> bool" where
  "isFinite (Num x) = True"
| "isFinite PInf = False"
| "isFinite NInf = False"
| "isFinite NaN = False"

text \<open>Truthiness of a number, as tested by \<open>denom ? \<dots> : \<dots>\<close>: \<open>0\<close> and \<open>NaN\<close> are falsy.\<close>

fun truthy :: "jsnum \<Rightarrow> bool" where
  "truthy (Num x) = (x \<noteq> 0)"
| "truthy PInf = True"
| "truthy NInf = True"
| "truthy NaN = False"

fun js_add :: "jsnum \<Rightarrow> jsnum \<Rightarrow> jsnum" where
  "js_add (Num a) (Num b) = Num (a + b)"
| "js_add NaN _ = NaN"
| "js_add _ NaN = NaN"
| "js_add PInf NInf = NaN"
| "js_add NInf PInf = NaN"
| "js_add PInf _ = PInf"
| "js_add _ PInf = PInf"
| "js_add NInf _ = NInf"
| "js_add _ NInf = NInf"

fun js_neg :: "jsnum \<Rightarrow> jsnum" where
  "js_neg (Num a) = Num (- a)"
| "js_neg PInf = NInf"
| "js_neg NInf = PInf"
| "js_neg NaN = NaN"

definition js_sub :: "jsnum \<Rightarrow> jsnum \<Rightarrow> jsnum" where
  "js_sub a b = js_add a (js_neg b)"

text \<open>The sign of an infinite product: \<open>\<plusminus>Infinity\<close> times zero is \<open>NaN\<close>.\<close>

definition inf_times :: "bool \<Rightarrow> real \<Rightarrow> jsnum" where
  "inf_times positive x =
     (if x = 0 then NaN else if (0 < x) = positive then PInf else NInf)"

fun js_mul :: "jsnum \<Rightarrow> jsnum \<Rightarrow> jsnum" where
  "js_mul (Num a) (Num b) = Num (a * b)"
| "js_mul NaN _ = NaN"
| "js_mul _ NaN = NaN"
| "js_mul PInf (Num b) = inf_times True b"
| "js_mul NInf (Num b) = inf_times False b"
| "js_mul (Num a) PInf = inf_times True a"
| "js_mul (Num a) NInf = inf_times False a"
| "js_mul PInf PInf = PInf"
| "js_mul NInf NInf = PInf"
| "js_mul PInf NInf = NInf"
| "js_mul NInf PInf = NInf"

fun js_div :: "jsnum \<Rightarrow> jsnum \<Rightarrow> jsnum" where
  "js_div (Num a) (Num b) =
     (if b \<noteq> 0 then Num (a / b)
      else if a = 0 then NaN else if 0 < a then PInf else NInf)"
| "js_div NaN _ = NaN"
| "js_div _ NaN = NaN"
| "js_div (Num a) PInf = Num 0"
| "js_div (Num a) NInf = Num 0"
| "js_div PInf (Num b) = (if 0 \<le> b then PInf else NInf)"
| "js_div NInf (Num b) = (if 0 \<le> b then NInf else PInf)"
| "js_div PInf PInf = NaN"
| "js_div PInf NInf = NaN"
| "js_div NInf PInf = NaN"
| "js_div NInf NInf = NaN"

fun js_sqrt :: "jsnum \<Rightarrow> jsnum" where
  "js_sqrt (Num a) = (if 0 \<le> a then Num (sqrt a) else NaN)"
| "js_sqrt PInf = PInf"
| "js_sqrt NInf = NaN"
| "js_sqrt NaN = NaN"

text \<open>The comparisons \<open>a > b\<close> and \<open>a >= b\<close>: false as soon as one side is \<open>NaN\<close>.\<close>

fun js_gt :: "jsnum \<Rightarrow> jsnum \<Rightarrow> bool" where
  "js_gt (Num a) (Num b) = (a > b)"
| "js_gt NaN _ = False"
| "js_gt _ NaN = False"
| "js_gt PInf PInf = False"
| "js_gt PInf _ = True"
| "js_gt _ PInf = False"
| "js_gt NInf _ = False"
| "js_gt _ NInf = True"

fun js_ge :: "jsnum \<Rightarrow> jsnum \<Rightarrow> bool" where
  "js_ge (Num a) (Num b) = (a \<ge> b)"
| "js_ge NaN _ = False"
| "js_ge _ NaN = False"
| "js_ge PInf _ = True"
| "js_ge NInf NInf = True"
| "js_ge _ NInf = True"
| "js_ge _ PInf = False"
| "js_ge NInf _ = False"

section \<open>Vector math\<close>

subsection \<open>\<open>lib/similarity.ts\<close>\<close>

text \<open>
  The arguments are of type \<open>any\<close>. \<open>Array.isArray\<close> accepts an array of arbitrary values
  and rejects everything else: a value that is no sequence, and also a typed array such as
  the \<open>Float32Array\<close> descriptors of face-api, which is given here by its numbers. The
  coercion \<open>Number(v)\<close> of one element is a parameter \<open>toNumber\<close> of the model: it returns a
  number or throws, a \<open>TypeError\<close> on a Symbol, or whatever the \<open>valueOf\<close> of an object
  throws.
\<close>

datatype jsError = TypeError | Thrown

datatype 'v jsany = NotSequence | TypedArray "jsnum list" | Arr "'v list"

text \<open>\<open>aRaw.map((v) => Number(v))\<close>: the first element whose coercion throws ends the call.\<close>

fun mapNumber :: "('v \<Rightarrow> jsError + jsnum) \<Rightarrow> 'v list \<Rightarrow> jsError + jsnum list" where
  "mapNumber toNumber [] = Inr []"
| "mapNumber toNumber (v # vs) =
     (case toNumber v of
        Inl err \<Rightarrow> Inl err
      | Inr x \<Rightarrow> (case mapNumber toNumber vs of Inl err \<Rightarrow> Inl err | Inr xs \<Rightarrow> Inr (x # xs)))"

text \<open>
  The loop of lines 15 to 21, on the coerced arrays. \<open>None\<close> is the early \<open>return 0\<close> of
  line 17; reading \<open>b[i]\<close> past the end gives \<open>undefined\<close>, which is not finite.
\<close>

fun simLoop :: "jsnum list \<Rightarrow> jsnum list \<Rightarrow> jsnum \<times> jsnum \<times> jsnum
    \<Rightarrow> (jsnum \<times> jsnum \<times> jsnum) option" where
  "simLoop [] b acc = Some acc"
| "simLoop (x # a) [] acc = None"
| "simLoop (x # a) (y # b) (dot, na, nb) =
     (if \<not> isFinite x \<or> \<not> isFinite y then None
      else simLoop a b (js_add dot (js_mul x y), js_add na (js_mul x x), js_add nb (js_mul y y)))"

definition cosineSimilarity ::
  "('v \<Rightarrow> jsError + jsnum) \<Rightarrow> 'v jsany \<Rightarrow> 'v jsany \<Rightarrow> jsError + jsnum" where
  "cosineSimilarity toNumber aRaw bRaw =
     (case (aRaw, bRaw) of
        (Arr av, Arr bv) \<Rightarrow>
          (case mapNumber toNumber av of
             Inl err \<Rightarrow> Inl err
           | Inr a \<Rightarrow>
               (case mapNumber toNumber bv of
                  Inl err \<Rightarrow> Inl err
                | Inr b \<Rightarrow>
                    Inr (if a = [] \<or> b = [] then Num 0
                         else if length a \<noteq> length b then Num 0
                         else (case simLoop a b (Num 0, Num 0, Num 0) of
                                 None \<Rightarrow> Num 0
                               | Some (dot, na, nb) \<Rightarrow>
                                   (let denom = js_mul (js_sqrt na) (js_sqrt nb) in
                                    if truthy denom then js_div dot denom else Num 0)))))
      | _ \<Rightarrow> Inr (Num 0))"

text \<open>
  \<open>Number\<close> on the values whose coercion needs no parsing. Strings and objects are covered
  by the parameter \<open>toNumber\<close>.
\<close>

datatype jsval = JsUndefined | JsNull | JsBool bool | JsNumber jsnum | JsSymbol

fun Number_of :: "jsval \<Rightarrow> jsError + jsnum" where
  "Number_of JsUndefined = Inr NaN"
| "Number_of JsNull = Inr (Num 0)"
| "Number_of (JsBool b) = Inr (Num (if b then 1 else 0))"
| "Number_of (JsNumber x) = Inr x"
| "Number_of JsSymbol = Inl TypeError"

subsection \<open>The two local variants of \<open>app/find/find-client.tsx\<close>\<close>

text \<open>
  Both loop over \<open>i < a.length\<close> without checking the elements. An index past the end of
  \<open>b\<close> reads \<open>undefined\<close>, which arithmetic turns into \<open>NaN\<close>.
\<close>

fun dotLoop :: "jsnum list \<Rightarrow> jsnum list \<Rightarrow> jsnum \<times> jsnum \<times> jsnum \<Rightarrow> jsnum \<times> jsnum \<times> jsnum" where
  "dotLoop [] b acc = acc"
| "dotLoop (x # a) b (dot, na, nb) =
     (let y = (case b of [] \<Rightarrow> NaN | y # _ \<Rightarrow> y) in
      dotLoop a (tl b)
        (js_add dot (js_mul x y), js_add na (js_mul x x), js_add nb (js_mul y y)))"

text \<open>The face-api variant (lines 14 to 24 of the first component): no validation, \<open>1e-10\<close> added to the denominator.\<close>

definition cosineSimilarity_faceapi :: "jsnum list \<Rightarrow> jsnum list \<Rightarrow> jsnum" where
  "cosineSimilarity_faceapi a b =
     (case dotLoop a b (Num 0, Num 0, Num 0) of
        (dot, na, nb) \<Rightarrow>
          js_div dot (js_add (js_mul (js_sqrt na) (js_sqrt nb)) (Num (1 / 10 ^ 10))))"

text \<open>The embedding variant (lines 900 to 910): lengths are checked, elements are not.\<close>

definition cosineSimilarity_embedding :: "jsnum list \<Rightarrow> jsnum list \<Rightarrow> jsnum" where
  "cosineSimilarity_embedding a b =
     (if a = [] \<or> b = [] \<or> length a \<noteq> length b then Num 0
      else (case dotLoop a b (Num 0, Num 0, Num 0) of
              (dot, na, nb) \<Rightarrow>
                (let denom = js_mul (js_sqrt na) (js_sqrt nb) in
                 if truthy denom then js_div dot denom else Num 0)))"

subsection \<open>The contract of the similarity operation, in the specification's words\<close>

definition dotProduct :: "real list \<Rightarrow> real list \<Rightarrow> real" where
  "dotProduct xs ys = sum_list (map2 (*) xs ys)"

definition sqNorm :: "real list \<Rightarrow> real" where
  "sqNorm xs = sum_list (map (\<lambda>x. x * x) xs)"

definition euclidNorm :: "real list \<Rightarrow> real" where
  "euclidNorm xs = sqrt (sqNorm xs)"

text \<open>The finite value of a number; only used on numbers known to be finite.\<close>

fun numVal :: "jsnum \<Rightarrow> real" where
  "numVal (Num x) = x"
| "numVal _ = 0"

definition cosine :: "real list \<Rightarrow> real list \<Rightarrow> real" where
  "cosine xs ys =
     (if euclidNorm xs = 0 \<or> euclidNorm ys = 0 then 0
      else dotProduct xs ys / (euclidNorm xs * euclidNorm ys))"

text \<open>
  The contract for two sequences, given by their elements after numeric coercion. An input
  that is not a sequence gives \<open>0\<close>.
\<close>

definition similarity_spec :: "jsnum list \<Rightarrow> jsnum list \<Rightarrow> jsnum" where
  "similarity_spec a b =
     (if a = [] \<or> b = [] \<or> length a \<noteq> length b \<or> \<not> list_all isFinite (a @ b)
      then Num 0
      else Num (cosine (map numVal a) (map numVal b)))"

section \<open>The progressive matcher of \<open>app/find/find-client.tsx\<close> (face-api variant)\<close>

record PhotoItem =
  path :: string
  url :: string

record MatchItem = PhotoItem +
  score :: jsnum

definition scanBatchSize :: nat where
  "scanBatchSize = 60"

definition scanMax :: nat where
  "scanMax = 240"

definition TOP_KEEP :: nat where
  "TOP_KEEP = 25"

definition CONCURRENCY :: nat where
  "CONCURRENCY = 2"

subsection \<open>The environment of one session\<close>

text \<open>
  What the session awaits is given by the environment: the outcome of the preparation
  (loading the models and detecting the face of the selfie), the outcome of fetching and
  analysing each candidate photo, the time each analysis takes, and the suspensions during
  which the user calls \<open>abortScan\<close>. Suspension \<open>0\<close> is the preparation, suspension \<open>k\<close>
  the \<open>k\<close>-th \<open>await Promise.all\<close> of the scan; JavaScript runs \<open>abortScan\<close> only while
  \<open>runMatching\<close> is suspended.
\<close>

datatype selfieResult = PrepThrows | NoSelfieFace | SelfieDesc "jsnum list"

datatype analysis = AnalyzeThrows | Detections "jsnum list list"

record env =
  selfie :: selfieResult
  analyze :: "PhotoItem \<Rightarrow> analysis"
  latency :: "PhotoItem \<Rightarrow> nat"
  pressed :: "nat \<Rightarrow> bool"

text \<open>
  The published updates: \<open>setProgress\<close>, \<open>setMatches\<close> and the call of \<open>abortScan\<close>
  (lines 195 to 199). The status messages are not modelled.
\<close>

datatype event = SetProgress nat nat | SetMatches "MatchItem list" | AbortScan

record session =
  scoredAll :: "MatchItem list"
  aborted :: bool
  awaits :: nat
  trace :: "event list"

datatype outcome = NoPhotos | Failed | NoFace | Cancelled | Completed

definition suspend :: "env \<Rightarrow> session \<Rightarrow> session" where
  "suspend e st =
     (if pressed e (awaits st)
      then st\<lparr>aborted := True, awaits := Suc (awaits st), trace := trace st @ [AbortScan]\<rparr>
      else st\<lparr>awaits := Suc (awaits st)\<rparr>)"

subsection \<open>\<open>Promise.all\<close>\<close>

text \<open>
  \<open>Promise.all\<close> stores the value of each worker in the slot of its index when the worker
  settles, and resolves with the slots once every worker has settled. The workers settle
  in the order of their latencies.
\<close>

definition promiseAll :: "('a \<Rightarrow> nat) \<Rightarrow> ('a \<Rightarrow> 'b) \<Rightarrow> 'a list \<Rightarrow> 'b list" where
  "promiseAll lat worker xs =
     (let n = length xs;
          completion = sort_key (\<lambda>i. lat (xs ! i)) [0..<n];
          slots = fold (\<lambda>i vs. vs[i := Some (worker (xs ! i))]) completion (replicate n None)
      in List.map_filter (\<lambda>v. v) slots)"

subsection \<open>\<open>Array.prototype.sort\<close> with a comparator\<close>

text \<open>
  The sort is stable (ECMAScript 2019), and for a consistent comparator its result is the
  one sorted list that keeps the order of equal elements. Insertion sort computes that
  list: an element moves behind those the comparator puts strictly before it. The
  comparator of the face-api matcher is consistent, because only finite scores reach its
  sort. Where a score can be \<open>NaN\<close> the comparator is not consistent and the order is left
  to the engine; the embedding variant below takes the sort of the engine as a parameter.
\<close>

fun insertBy :: "('a \<Rightarrow> 'a \<Rightarrow> jsnum) \<Rightarrow> 'a \<Rightarrow> 'a list \<Rightarrow> 'a list" where
  "insertBy cmp x [] = [x]"
| "insertBy cmp x (y # ys) =
     (if js_gt (cmp x y) (Num 0) then y # insertBy cmp x ys else x # y # ys)"

definition sortBy :: "('a \<Rightarrow> 'a \<Rightarrow> jsnum) \<Rightarrow> 'a list \<Rightarrow> 'a list" where
  "sortBy cmp xs = foldr (insertBy cmp) xs []"

text \<open>The comparator \<open>(a, b) => b.score - a.score\<close>.\<close>

definition byScoreDesc :: "MatchItem \<Rightarrow> MatchItem \<Rightarrow> jsnum" where
  "byScoreDesc a b = js_sub (score b) (score a)"

subsection \<open>\<open>scoreOne\<close>, \<open>keepTop\<close> and the loops of \<open>runMatching\<close>\<close>

text \<open>The body and the loop of lines 255 to 259: the best similarity over the detected faces.\<close>

definition bestStep :: "jsnum list \<Rightarrow> jsnum list \<Rightarrow> jsnum \<Rightarrow> jsnum" where
  "bestStep selfieDesc d best =
     (let s = cosineSimilarity_faceapi selfieDesc d in if js_gt s best then s else best)"

definition bestScore :: "jsnum list \<Rightarrow> jsnum list list \<Rightarrow> jsnum" where
  "bestScore selfieDesc detections = fold (bestStep selfieDesc) detections (Num (- 1))"

definition scoreOne :: "env \<Rightarrow> jsnum list \<Rightarrow> bool \<Rightarrow> PhotoItem \<Rightarrow> MatchItem option" where
  "scoreOne e selfieDesc abortRef p =
     (if abortRef then None
      else (case analyze e p of
              AnalyzeThrows \<Rightarrow> None
            | Detections detections \<Rightarrow>
                if detections = [] then None
                else Some \<lparr>path = path p, url = url p,
                           score = bestScore selfieDesc detections\<rparr>))"

definition keepTop :: "MatchItem list \<Rightarrow> MatchItem list" where
  "keepTop arr =
     (let sorted = sortBy byScoreDesc arr in
      if length sorted > TOP_KEEP then take TOP_KEEP sorted else sorted)"

text \<open>The merge step of lines 288 to 290.\<close>

fun pushScored :: "MatchItem option list \<Rightarrow> MatchItem list \<Rightarrow> MatchItem list" where
  "pushScored [] acc = acc"
| "pushScored (None # rs) acc = pushScored rs acc"
| "pushScored (Some r # rs) acc =
     pushScored rs (if js_ge (score r) (Num 0) then acc @ [r] else acc)"

text \<open>
  One round of the inner \<open>while\<close> loop (lines 285 to 293): the workers of one chunk are
  started, the session is suspended until all have settled, the results are merged and the
  progress is published.
\<close>

definition chunkBody ::
  "env \<Rightarrow> jsnum list \<Rightarrow> nat \<Rightarrow> PhotoItem list \<Rightarrow> nat \<Rightarrow> nat \<Rightarrow> session \<Rightarrow> session" where
  "chunkBody e selfieDesc poolLength batch start i st =
     (let chunk = take CONCURRENCY (drop i batch);
          results = promiseAll (latency e) (scoreOne e selfieDesc (aborted st)) chunk;
          st1 = suspend e st;
          st2 = st1\<lparr>scoredAll := pushScored results (scoredAll st1)\<rparr>;
          i' = i + CONCURRENCY
      in st2\<lparr>trace := trace st2 @ [SetProgress (min poolLength (start + i')) poolLength]\<rparr>)"

text \<open>The inner \<open>while\<close> loop of lines 281 to 294.\<close>

function chunkLoop ::
  "env \<Rightarrow> jsnum list \<Rightarrow> nat \<Rightarrow> PhotoItem list \<Rightarrow> nat \<Rightarrow> nat \<Rightarrow> session \<Rightarrow> session" where
  "chunkLoop e selfieDesc poolLength batch start i st =
     (if i < length batch then
        (if aborted st then st
         else chunkLoop e selfieDesc poolLength batch start (i + CONCURRENCY)
                (chunkBody e selfieDesc poolLength batch start i st))
      else st)"
  by pat_completeness auto
termination
  by (relation "measure (\<lambda>(e, selfieDesc, poolLength, batch, start, i, st). length batch - i)")
     (auto simp: CONCURRENCY_def)

text \<open>The publish step of lines 298 to 308.\<close>

definition publishStep :: "real \<Rightarrow> session \<Rightarrow> session" where
  "publishStep threshold st =
     (let filtered = sortBy byScoreDesc
                       (filter (\<lambda>x. js_ge (score x) (Num threshold)) (scoredAll st));
          top = take 8 filtered
      in if length top > 0 then st\<lparr>trace := trace st @ [SetMatches top]\<rparr>
         else st\<lparr>trace := trace st @ [SetMatches []]\<rparr>)"

text \<open>One batch (lines 276 to 308): its chunks, then \<open>keepTop\<close>, then the publish step.\<close>

definition batchBody ::
  "env \<Rightarrow> jsnum list \<Rightarrow> real \<Rightarrow> PhotoItem list \<Rightarrow> nat \<Rightarrow> session \<Rightarrow> session" where
  "batchBody e selfieDesc threshold pool start st =
     (let end = min (length pool) (start + scanBatchSize);
          batch = take (end - start) (drop start pool);
          st1 = chunkLoop e selfieDesc (length pool) batch start 0 st;
          st2 = st1\<lparr>scoredAll := keepTop (scoredAll st1)\<rparr>
      in publishStep threshold st2)"

text \<open>The \<open>for\<close> loop over the batches, lines 273 to 309.\<close>

function batchLoop ::
  "env \<Rightarrow> jsnum list \<Rightarrow> real \<Rightarrow> PhotoItem list \<Rightarrow> nat \<Rightarrow> session \<Rightarrow> session" where
  "batchLoop e selfieDesc threshold pool start st =
     (if start < length pool then
        (if aborted st then st
         else batchLoop e selfieDesc threshold pool (start + scanBatchSize)
                (batchBody e selfieDesc threshold pool start st))
      else st)"
  by pat_completeness auto
termination
  by (relation "measure (\<lambda>(e, selfieDesc, threshold, pool, start, st). length pool - start)")
     (auto simp: scanBatchSize_def)

text \<open>
  \<open>runMatching\<close>, lines 201 to 331. The result is the terminal state of the session and
  its run-state, whose trace holds everything the session published.
\<close>

definition runMatching :: "env \<Rightarrow> real \<Rightarrow> PhotoItem list \<Rightarrow> outcome \<times> session" where
  "runMatching e threshold eventPhotos =
     (if eventPhotos = []
      then (NoPhotos, \<lparr>scoredAll = [], aborted = False, awaits = 0, trace = []\<rparr>)
      else
        (let st0 = suspend e
               \<lparr>scoredAll = [], aborted = False, awaits = 0,
                trace = [SetMatches [], SetProgress 0 (min scanMax (length eventPhotos))]\<rparr>
         in case selfie e of
              PrepThrows \<Rightarrow> (Failed, st0)
            | NoSelfieFace \<Rightarrow> (NoFace, st0)
            | SelfieDesc selfieDesc \<Rightarrow>
                (let total' = min scanMax (length eventPhotos);
                     pool = take total' eventPhotos;
                     st1 = batchLoop e selfieDesc threshold pool 0 st0
                 in if aborted st1 then (Cancelled, st1)
                    else
                      (let sorted = sortBy byScoreDesc (scoredAll st1);
                           finalFiltered = filter (\<lambda>x. js_ge (score x) (Num threshold)) sorted;
                           finalTop = take 8 finalFiltered
                       in (Completed,
                           st1\<lparr>scoredAll := sorted, trace := trace st1 @ [SetMatches finalTop]\<rparr>)))))"

text \<open>The results and the progress that a trace published, oldest first.\<close>

fun publishedMatches :: "event list \<Rightarrow> MatchItem list list" where
  "publishedMatches [] = []"
| "publishedMatches (SetMatches ms # evs) = ms # publishedMatches evs"
| "publishedMatches (_ # evs) = publishedMatches evs"

fun publishedProgress :: "event list \<Rightarrow> (nat \<times> nat) list" where
  "publishedProgress [] = []"
| "publishedProgress (SetProgress d t # evs) = (d, t) # publishedProgress evs"
| "publishedProgress (_ # evs) = publishedProgress evs"

section \<open>The matcher of the embedding variant of \<open>app/find/find-client.tsx\<close>\<close>











section \<open>The descriptor source: \<open>app/api/embed/route.ts\<close> and \<open>lib/faceServer.ts\<close>\<close>

subsection \<open>JSON values\<close>

text \<open>
  The result of \<open>JSON.parse\<close>. An object is the list of its members; \<open>undefined\<close> is
  \<open>None\<close> of \<open>json option\<close>.
\<close>

datatype json =
    JNull | JBool bool | JNum real | JStr string | JArr "json list" | JObj "(string \<times> json) list"

text \<open>
  \<open>v?.k\<close> for the member names that the two files read (\<open>ok\<close>, \<open>error\<close>, \<open>data\<close>,
  \<open>detail\<close>, \<open>faces\<close>, \<open>embedding\<close>): only an object has such a member.
\<close>

fun getProp :: "json option \<Rightarrow> string \<Rightarrow> json option" where
  "getProp (Some (JObj members)) k = map_of members k"
| "getProp _ k = None"

text \<open>\<open>v?.[0]\<close>: the first element of an array, the first character of a string, the member \<open>0\<close> of an object.\<close>

fun index0 :: "json option \<Rightarrow> json option" where
  "index0 (Some (JArr (x # xs))) = Some x"
| "index0 (Some (JStr (c # cs))) = Some (JStr [c])"
| "index0 (Some (JObj members)) = map_of members ''0''"
| "index0 _ = None"

fun truthyJ :: "json option \<Rightarrow> bool" where
  "truthyJ None = False"
| "truthyJ (Some JNull) = False"
| "truthyJ (Some (JBool b)) = b"
| "truthyJ (Some (JNum x)) = (x \<noteq> 0)"
| "truthyJ (Some (JStr s)) = (s \<noteq> [])"
| "truthyJ (Some (JArr xs)) = True"
| "truthyJ (Some (JObj members)) = True"

subsection \<open>\<open>POST\<close> of \<open>app/api/embed/route.ts\<close>\<close>

text \<open>
  The request is multipart with or without a \<open>File\<close> in its \<open>file\<close> field, or of another
  content type. The call of the face server throws, or answers with \<open>r.ok\<close>, \<open>r.status\<close>
  and a body that \<open>JSON.parse\<close> accepts (\<open>Some\<close>) or rejects (\<open>None\<close>).
\<close>

datatype request = Multipart bool | OtherContent

datatype upstream = FetchThrows | Upstream bool nat "json option"

datatype routeError =
    BaseMissing | FileFieldMissing | ParseFailed | FaceServerError nat | Unsupported | Exception

text \<open>
  The two shapes of the response: \<open>{ ok: false, error }\<close> with its status, and
  \<open>{ ok: true, faces_count, faces, embedding, message }\<close>, where \<open>embedding\<close> is \<open>null\<close>
  (\<open>None\<close>) or the chosen array.
\<close>

datatype routeResponse =
    RouteError nat routeError
  | RouteOk nat "json list" "json option" string

text \<open>The callback of \<open>faces.find\<close>, line 49: \<open>f.embedding\<close> is an array that is not empty.\<close>

definition hasEmbedding :: "json \<Rightarrow> bool" where
  "hasEmbedding f = (case getProp (Some f) ''embedding'' of Some (JArr (x # xs)) \<Rightarrow> True | _ \<Rightarrow> False)"

text \<open>
  \<open>faces.find(\<dots>) || null\<close>. Reading \<open>f.embedding\<close> of \<open>null\<close> throws a \<open>TypeError\<close>
  (\<open>Inl\<close>), which the \<open>catch\<close> of line 63 turns into the status 500.
\<close>

fun findBest :: "json list \<Rightarrow> unit + json option" where
  "findBest [] = Inr None"
| "findBest (JNull # fs) = Inl ()"
| "findBest (f # fs) = (if hasEmbedding f then Inr (Some f) else findBest fs)"

definition facesOf :: "json \<Rightarrow> json list" where
  "facesOf data = (case getProp (Some data) ''faces'' of Some (JArr fs) \<Rightarrow> fs | _ \<Rightarrow> [])"

definition POST :: "bool \<Rightarrow> request \<Rightarrow> upstream \<Rightarrow> routeResponse" where
  "POST base req up =
     (if \<not> base then RouteError 500 BaseMissing
      else (case req of
              OtherContent \<Rightarrow> RouteError 400 Unsupported
            | Multipart isFile \<Rightarrow>
                if \<not> isFile then RouteError 400 FileFieldMissing
                else (case up of
                        FetchThrows \<Rightarrow> RouteError 500 Exception
                      | Upstream r_ok r_status parsed \<Rightarrow>
                          (case parsed of
                             None \<Rightarrow> RouteError 502 ParseFailed
                           | Some data \<Rightarrow>
                               if \<not> r_ok then RouteError 502 (FaceServerError r_status)
                               else (let faces = facesOf data in
                                     case findBest faces of
                                       Inl _ \<Rightarrow> RouteError 500 Exception
                                     | Inr best \<Rightarrow>
                                         RouteOk (length faces) faces
                                           (case best of None \<Rightarrow> None
                                            | Some f \<Rightarrow> getProp (Some f) ''embedding'')
                                           (if faces \<noteq> [] then ''OK'' else ''NO_FACE''))))))"

subsection \<open>\<open>embedFace\<close> of \<open>lib/faceServer.ts\<close>\<close>

text \<open>
  The call of \<open>/api/embed\<close> rejects, or answers with \<open>res.ok\<close> and a text that
  \<open>JSON.parse\<close> accepts or rejects (then \<open>json\<close> stays \<open>null\<close>). The function returns the
  embedding or throws one of three errors: the failure of the call, the message that no
  face was found, and the message that the response holds no embedding array.
\<close>

datatype apiReply = FetchRejects | Reply bool "json option"

datatype embedError = EmbedFailed | NoFaceFound | NoEmbeddingArray

definition embedFace :: "apiReply \<Rightarrow> embedError + json list" where
  "embedFace reply =
     (case reply of
        FetchRejects \<Rightarrow> Inl EmbedFailed
      | Reply res_ok parsed \<Rightarrow>
          (let json = (case parsed of None \<Rightarrow> Some JNull | Some j \<Rightarrow> Some j) in
           if \<not> res_ok \<or> \<not> truthyJ (getProp json ''ok'') then Inl EmbedFailed
           else (let faces = getProp (getProp json ''data'') ''faces'';
                     emb = getProp (index0 faces) ''embedding''
                 in case emb of
                      Some (JArr e) \<Rightarrow> Inr e
                    | _ \<Rightarrow> (case faces of
                              Some (JArr []) \<Rightarrow> Inl NoFaceFound
                            | _ \<Rightarrow> Inl NoEmbeddingArray))))"

section \<open>Concrete sessions\<close>

definition photoA :: PhotoItem where
  "photoA = \<lparr>path = ''a'', url = ''ua''\<rparr>"

definition photoB :: PhotoItem where
  "photoB = \<lparr>path = ''b'', url = ''ub''\<rparr>"

definition photoC :: PhotoItem where
  "photoC = \<lparr>path = ''c'', url = ''uc''\<rparr>"

definition photoD :: PhotoItem where
  "photoD = \<lparr>path = ''d'', url = ''ud''\<rparr>"

text \<open>
  The selfie has the descriptor \<open>(1, 0)\<close>. Photo \<open>a\<close> shows the same face, photo \<open>b\<close> the
  opposite descriptor, the analysis of photo \<open>c\<close> fails, and every other photo shows two
  faces, the second of which is the face of the selfie. Nobody cancels.
\<close>

definition demoEnv :: env where
  "demoEnv =
     \<lparr>selfie = SelfieDesc [Num 1, Num 0],
      analyze = (\<lambda>p. if path p = ''a'' then Detections [[Num 1, Num 0]]
                     else if path p = ''b'' then Detections [[Num (- 1), Num 0]]
                     else if path p = ''c'' then AnalyzeThrows
                     else Detections [[Num 0, Num 1], [Num 1, Num 0]]),
      latency = (\<lambda>p. if path p = ''a'' then 5 else 1),
      pressed = (\<lambda>k. False)\<rparr>"

text \<open>The same session with every analysis failing, and with \<open>abortScan\<close> during the first chunk.\<close>

definition outageEnv :: env where
  "outageEnv = demoEnv\<lparr>analyze := (\<lambda>p. AnalyzeThrows)\<rparr>"

definition cancelEnv :: env where
  "cancelEnv = demoEnv\<lparr>pressed := (\<lambda>k. k = 1)\<rparr>"

definition scoreSame :: jsnum where
  "scoreSame = Num (1 / (1 + 1 / 10 ^ 10))"

definition matchA :: MatchItem where
  "matchA = \<lparr>path = ''a'', url = ''ua'', score = scoreSame\<rparr>"

definition matchB :: MatchItem where
  "matchB = \<lparr>path = ''b'', url = ''ub'', score = Num (- 1 / (1 + 1 / 10 ^ 10))\<rparr>"

definition matchD :: MatchItem where
  "matchD = \<lparr>path = ''d'', url = ''ud'', score = scoreSame\<rparr>"



text \<open>
  Answers of the face server: an object without \<open>faces\<close>, and two faces of which the first
  has an empty embedding; the latter wrapped as \<open>/api/embed\<close> answers are read by
  \<open>lib/faceServer.ts\<close>.
\<close>

definition faceEmpty :: json where
  "faceEmpty = JObj [(''embedding'', JArr [])]"

definition faceOne :: json where
  "faceOne = JObj [(''embedding'', JArr [JNum 1])]"

definition apiTwoFaces :: json where
  "apiTwoFaces = JObj [(''ok'', JBool True), (''data'', JObj [(''faces'', JArr [faceEmpty, faceOne])])]"

definition apiNoFaces :: json where
  "apiNoFaces = JObj [(''ok'', JBool True), (''data'', JObj [(''faces'', JArr [])])]"

section \<open>Notions used to state the properties of the matcher\<close>

text \<open>
  The scored candidates that the merge step admits for a list of photos, in the order of
  the photos; the sort key of the descending order of scores.
\<close>

definition scoredOf :: "env \<Rightarrow> jsnum list \<Rightarrow> PhotoItem list \<Rightarrow> MatchItem list" where
  "scoredOf e selfieDesc photos = pushScored (map (scoreOne e selfieDesc False) photos) []"

definition negScore :: "MatchItem \<Rightarrow> real" where
  "negScore m = - numVal (score m)"

text \<open>The stable merge of two lists, elements of the first list first among equal keys.\<close>

fun mergeKey :: "('a \<Rightarrow> real) \<Rightarrow> 'a list \<Rightarrow> 'a list \<Rightarrow> 'a list" where
  "mergeKey f [] bs = bs"
| "mergeKey f (a # as) [] = a # as"
| "mergeKey f (a # as) (b # bs) =
     (if f a \<le> f b then a # mergeKey f as (b # bs) else b # mergeKey f (a # as) bs)"

text \<open>The values that the sums of squares and the accumulators of \<open>dotLoop\<close> range over.\<close>

definition nonnegOrSpecial :: "jsnum \<Rightarrow> bool" where
  "nonnegOrSpecial x = (case x of Num r \<Rightarrow> 0 \<le> r | NInf \<Rightarrow> False | _ \<Rightarrow> True)"

definition accOK :: "jsnum \<times> jsnum \<times> jsnum \<Rightarrow> bool" where
  "accOK acc = (case acc of (dot, na, nb) \<Rightarrow>
     nonnegOrSpecial na \<and> nonnegOrSpecial nb \<and> (isFinite na \<and> isFinite nb \<longrightarrow> isFinite dot))"

text \<open>
  The progress that a trace published is non-decreasing, has the total \<open>N\<close> throughout and
  stays below \<open>N\<close> and below the bound \<open>b\<close>.
\<close>

definition progressOK :: "nat \<Rightarrow> nat \<Rightarrow> event list \<Rightarrow> bool" where
  "progressOK N b tr =
     (sorted (map fst (publishedProgress tr))
      \<and> (\<forall>(x, t)\<in>set (publishedProgress tr). t = N \<and> x \<le> N \<and> x \<le> b))"

section \<open>Properties of the vector math\<close>

lemma simLoop_finite:
  "length a = length b \<Longrightarrow> list_all isFinite a \<Longrightarrow> list_all isFinite b \<Longrightarrow>
   simLoop a b (Num d, Num p, Num q) =
     Some (Num (d + dotProduct (map numVal a) (map numVal b)),
           Num (p + sqNorm (map numVal a)),
           Num (q + sqNorm (map numVal b)))"
proof (induction a b arbitrary: d p q rule: list_induct2)
  case Nil
  then show ?case by (simp add: dotProduct_def sqNorm_def)
next
  case (Cons x xs y ys)
  from Cons.prems obtain u v where x: "x = Num u" and y: "y = Num v"
    by (cases x; cases y) auto
  from Cons.prems have fin: "list_all isFinite xs" "list_all isFinite ys" by simp_all
  show ?case
    using Cons.IH [OF fin, of "d + u * v" "p + u * u" "q + v * v"]
    by (simp add: x y dotProduct_def sqNorm_def algebra_simps)
qed

lemma simLoop_nonfinite:
  "length a = length b \<Longrightarrow> \<not> list_all isFinite (a @ b) \<Longrightarrow> simLoop a b acc = None"
proof (induction a b arbitrary: acc rule: list_induct2)
  case Nil
  then show ?case by simp
next
  case (Cons x xs y ys)
  obtain dot na nb where acc: "acc = (dot, na, nb)" by (cases acc) auto
  show ?case
  proof (cases "isFinite x \<and> isFinite y")
    case True
    with Cons.prems have "\<not> list_all isFinite (xs @ ys)" by auto
    then show ?thesis using Cons.IH True by (simp add: acc)
  next
    case False
    then show ?thesis by (auto simp: acc)
  qed
qed

lemma sqNorm_nonneg: "0 \<le> sqNorm xs"
  unfolding sqNorm_def by (induction xs) auto

lemma simLoop_spec:
  "(if a = [] \<or> b = [] then Num 0
    else if length a \<noteq> length b then Num 0
    else (case simLoop a b (Num 0, Num 0, Num 0) of
            None \<Rightarrow> Num 0
          | Some (dot, na, nb) \<Rightarrow>
              (let denom = js_mul (js_sqrt na) (js_sqrt nb) in
               if truthy denom then js_div dot denom else Num 0))) = similarity_spec a b"
proof (cases "a = [] \<or> b = [] \<or> length a \<noteq> length b")
  case True
  then show ?thesis by (auto simp: similarity_spec_def)
next
  case False
  then have len: "length a = length b" by simp
  show ?thesis
  proof (cases "list_all isFinite (a @ b)")
    case False
    from simLoop_nonfinite [OF len this] have "simLoop a b (Num 0, Num 0, Num 0) = None" .
    then show ?thesis using False by (simp add: similarity_spec_def)
  next
    case True
    then have fa: "list_all isFinite a" and fb: "list_all isFinite b" by simp_all
    note loop = simLoop_finite [OF len fa fb, of 0 0 0]
    have nn: "0 \<le> sqNorm (map numVal a)" "0 \<le> sqNorm (map numVal b)"
      by (rule sqNorm_nonneg)+
    show ?thesis using True \<open>\<not> (a = [] \<or> b = [] \<or> length a \<noteq> length b)\<close> nn loop
      by (simp add: similarity_spec_def cosine_def euclidNorm_def Let_def)
  qed
qed

lemma cosineSimilarity_coerced:
  assumes "mapNumber toNumber av = Inr a" and "mapNumber toNumber bv = Inr b"
  shows "cosineSimilarity toNumber (Arr av) (Arr bv) = Inr (similarity_spec a b)"
  by (simp only: cosineSimilarity_def prod.case jsany.case sum.case assms simLoop_spec)



lemma dotLoop_finite:
  "length xs = length ys \<Longrightarrow>
   dotLoop (map Num xs) (map Num ys) (Num d, Num p, Num q) =
     (Num (d + dotProduct xs ys), Num (p + sqNorm xs), Num (q + sqNorm ys))"
proof (induction xs ys arbitrary: d p q rule: list_induct2)
  case Nil
  then show ?case by (simp add: dotProduct_def sqNorm_def)
next
  case (Cons x xs y ys)
  show ?case
    using Cons.IH [of "d + x * y" "p + x * x" "q + y * y"]
    by (simp add: dotProduct_def sqNorm_def algebra_simps)
qed

lemma embedding_finite:
  assumes "length xs = length ys" "xs \<noteq> []"
  shows "cosineSimilarity_embedding (map Num xs) (map Num ys) = Num (cosine xs ys)"
proof -
  have nn: "0 \<le> sqNorm xs" "0 \<le> sqNorm ys" by (rule sqNorm_nonneg)+
  from assms have "ys \<noteq> []" by auto
  with assms nn show ?thesis
    using dotLoop_finite [OF assms(1), of 0 0 0]
    by (simp add: cosineSimilarity_embedding_def cosine_def euclidNorm_def Let_def)
qed

lemma faceapi_finite:
  assumes "length xs = length ys"
  shows "cosineSimilarity_faceapi (map Num xs) (map Num ys) =
           Num (dotProduct xs ys / (euclidNorm xs * euclidNorm ys + 1 / 10 ^ 10))"
proof -
  have nn: "0 \<le> sqNorm xs" "0 \<le> sqNorm ys" by (rule sqNorm_nonneg)+
  then have "0 \<le> sqrt (sqNorm xs) * sqrt (sqNorm ys)" by simp
  moreover have "(0::real) < 1 / 10 ^ 10" by simp
  ultimately have "sqrt (sqNorm xs) * sqrt (sqNorm ys) + 1 / 10 ^ 10 \<noteq> 0" by linarith
  with nn show ?thesis
    using dotLoop_finite [OF assms(1), of 0 0 0]
    by (simp add: cosineSimilarity_faceapi_def euclidNorm_def)
qed



section \<open>Properties of the matcher\<close>

subsection \<open>\<open>Promise.all\<close> returns the results in the order of the workers\<close>

lemma fold_update_length:
  "length (fold (\<lambda>i vs. vs[i := g i]) ord init) = length init"
  by (induction ord arbitrary: init) auto

lemma fold_update_nth:
  "j < length init \<Longrightarrow>
   fold (\<lambda>i vs. vs[i := g i]) ord init ! j = (if j \<in> set ord then g j else init ! j)"
proof (induction ord arbitrary: init)
  case Nil
  then show ?case by simp
next
  case (Cons i ord)
  then show ?case by (cases "i = j") (auto simp: nth_list_update)
qed

lemma map_filter_Some: "List.map_filter (\<lambda>v. v) (map (Some \<circ> f) ys) = map f ys"
  by (induction ys) (auto simp: List.map_filter_simps)

lemma promiseAll_eq_map: "promiseAll lat worker xs = map worker xs"
proof -
  let ?n = "length xs"
  let ?ord = "sort_key (\<lambda>i. lat (xs ! i)) [0..<?n]"
  let ?slots = "fold (\<lambda>i vs. vs[i := Some (worker (xs ! i))]) ?ord (replicate ?n None)"
  have "?slots = map Some (map worker xs)"
  proof (rule nth_equalityI)
    show "length ?slots = length (map Some (map worker xs))"
      by (simp add: fold_update_length)
  next
    fix j assume "j < length ?slots"
    then have j: "j < ?n" by (simp add: fold_update_length)
    then have "j \<in> set ?ord" by simp
    with j show "?slots ! j = map Some (map worker xs) ! j"
      by (simp add: fold_update_nth)
  qed
  then show ?thesis
    by (simp add: promiseAll_def Let_def map_filter_Some)
qed

subsection \<open>The comparator sort is the stable sort by descending score\<close>

lemma set_insertBy: "set (insertBy cmp x ys) = insert x (set ys)"
  by (induction ys) auto

lemma set_sortBy: "set (sortBy cmp xs) = set xs"
  unfolding sortBy_def by (induction xs) (auto simp: set_insertBy)

lemma length_insertBy: "length (insertBy cmp x ys) = Suc (length ys)"
  by (induction ys) auto

lemma length_sortBy: "length (sortBy cmp xs) = length xs"
  unfolding sortBy_def by (induction xs) (auto simp: length_insertBy)

lemma insertBy_insort_key:
  "isFinite (score x) \<Longrightarrow> list_all (\<lambda>m. isFinite (score m)) ys \<Longrightarrow>
   insertBy byScoreDesc x ys = insort_key negScore x ys"
proof (induction ys)
  case Nil
  then show ?case by simp
next
  case (Cons y ys)
  from Cons.prems obtain u v where "score x = Num u" "score y = Num v"
    by (cases "score x"; cases "score y") auto
  with Cons show ?case
    by (auto simp: byScoreDesc_def js_sub_def negScore_def)
qed

lemma sortBy_sort_key:
  "list_all (\<lambda>m. isFinite (score m)) xs \<Longrightarrow> sortBy byScoreDesc xs = sort_key negScore xs"
proof (induction xs)
  case Nil
  then show ?case by (simp add: sortBy_def)
next
  case (Cons x xs)
  then have "list_all (\<lambda>m. isFinite (score m)) (sort_key negScore xs)"
    by (simp add: list_all_iff)
  with Cons show ?case
    by (simp add: sortBy_def insertBy_insort_key)
qed






subsection \<open>Scores are finite numbers\<close>

lemma square_nonnegOrSpecial: "nonnegOrSpecial (js_mul x x)"
  by (cases x) (auto simp: nonnegOrSpecial_def)

lemma add_nonnegOrSpecial:
  "nonnegOrSpecial a \<Longrightarrow> nonnegOrSpecial b \<Longrightarrow> nonnegOrSpecial (js_add a b)"
  by (cases a; cases b) (auto simp: nonnegOrSpecial_def)

lemma add_square_finite: "isFinite (js_add a (js_mul x x)) \<Longrightarrow> isFinite a \<and> isFinite x"
  by (cases a; cases x) (auto simp: inf_times_def)

lemma add_mul_finite: "isFinite a \<Longrightarrow> isFinite x \<Longrightarrow> isFinite y \<Longrightarrow> isFinite (js_add a (js_mul x y))"
  by (cases a; cases x; cases y) auto

lemma dotLoop_accOK: "accOK acc \<Longrightarrow> accOK (dotLoop a b acc)"
proof (induction a b acc rule: dotLoop.induct)
  case (1 b acc)
  then show ?case by simp
next
  case (2 x a b dot na nb)
  define y where "y = (case b of [] \<Rightarrow> NaN | y # _ \<Rightarrow> y)"
  have "accOK (js_add dot (js_mul x y), js_add na (js_mul x x), js_add nb (js_mul y y))"
    using "2.prems"
    by (auto simp: accOK_def add_nonnegOrSpecial square_nonnegOrSpecial
        dest!: add_square_finite intro: add_mul_finite)
  then show ?case using "2.IH" [OF y_def] by (simp add: y_def Let_def)
qed

lemma faceapi_Num_or_NaN: "(\<exists>r. cosineSimilarity_faceapi a b = Num r) \<or> cosineSimilarity_faceapi a b = NaN"
proof -
  obtain dot na nb where loop: "dotLoop a b (Num 0, Num 0, Num 0) = (dot, na, nb)"
    by (cases "dotLoop a b (Num 0, Num 0, Num 0)") auto
  have "accOK (Num 0, Num 0, Num 0)" by (simp add: accOK_def nonnegOrSpecial_def)
  from dotLoop_accOK [OF this, of a b] have ok: "accOK (dot, na, nb)" by (simp add: loop)
  have eps: "(0::real) < 1 / 10 ^ 10" by simp
  show ?thesis
  proof (cases "isFinite na \<and> isFinite nb")
    case True
    then obtain p q where pq: "na = Num p" "nb = Num q" by (cases na; cases nb) auto
    with ok obtain d where d: "dot = Num d" by (cases dot) (auto simp: accOK_def)
    from ok pq have "0 \<le> p" "0 \<le> q" by (auto simp: accOK_def nonnegOrSpecial_def)
    then have "0 \<le> sqrt p * sqrt q" by simp
    with eps have "sqrt p * sqrt q + 1 / 10 ^ 10 \<noteq> 0" by linarith
    with \<open>0 \<le> p\<close> \<open>0 \<le> q\<close> show ?thesis
      by (simp add: cosineSimilarity_faceapi_def loop pq d)
  next
    case False
    have s: "\<And>x. nonnegOrSpecial x \<Longrightarrow> \<not> isFinite x \<Longrightarrow> js_sqrt x = PInf \<or> js_sqrt x = NaN"
      subgoal for x by (cases x) (auto simp: nonnegOrSpecial_def) done
    have t: "\<And>x. nonnegOrSpecial x \<Longrightarrow> nonnegOrSpecial (js_sqrt x)"
      subgoal for x by (cases x) (auto simp: nonnegOrSpecial_def) done
    have m: "\<And>x y. x = PInf \<or> x = NaN \<Longrightarrow> nonnegOrSpecial y \<Longrightarrow>
        (js_mul x y = PInf \<or> js_mul x y = NaN) \<and> (js_mul y x = PInf \<or> js_mul y x = NaN)"
      subgoal for x y by (cases y) (auto simp: nonnegOrSpecial_def inf_times_def) done
    from ok have nn: "nonnegOrSpecial na" "nonnegOrSpecial nb" by (auto simp: accOK_def)
    from False nn s [of na] s [of nb] t [of na] t [of nb] m [of "js_sqrt na" "js_sqrt nb"]
      m [of "js_sqrt nb" "js_sqrt na"]
    have "js_mul (js_sqrt na) (js_sqrt nb) = PInf \<or> js_mul (js_sqrt na) (js_sqrt nb) = NaN"
      by blast
    then have "js_add (js_mul (js_sqrt na) (js_sqrt nb)) (Num (1 / 10 ^ 10)) = PInf
        \<or> js_add (js_mul (js_sqrt na) (js_sqrt nb)) (Num (1 / 10 ^ 10)) = NaN"
      by auto
    then show ?thesis
      by (cases dot) (auto simp: cosineSimilarity_faceapi_def loop)
  qed
qed

lemma bestStep_Num: "\<exists>r. bestStep selfieDesc d (Num b) = Num r"
  using faceapi_Num_or_NaN [of selfieDesc d] by (auto simp: bestStep_def Let_def)

lemma bestScore_fold_Num: "\<exists>r. fold (bestStep selfieDesc) ds (Num b) = Num r"
proof (induction ds arbitrary: b)
  case Nil
  then show ?case by simp
next
  case (Cons d ds)
  obtain r where "bestStep selfieDesc d (Num b) = Num r" using bestStep_Num by blast
  with Cons.IH [of r] show ?case by simp
qed

lemma bestScore_Num: "\<exists>r. bestScore selfieDesc ds = Num r"
  unfolding bestScore_def by (rule bestScore_fold_Num)

lemma scoreOne_Some:
  assumes "scoreOne e selfieDesc ab p = Some m"
  shows "isFinite (score m) \<and> path m = path p \<and> url m = url p \<and> \<not> ab"
proof -
  from assms obtain ds where m: "m = \<lparr>path = path p, url = url p, score = bestScore selfieDesc ds\<rparr>"
    and "\<not> ab"
    by (auto simp: scoreOne_def split: if_splits analysis.splits)
  moreover obtain r where "bestScore selfieDesc ds = Num r" using bestScore_Num by blast
  ultimately show ?thesis by simp
qed

subsection \<open>Truncating between batches does not change the top of the ranking\<close>

lemma mergeKey_Nil2: "mergeKey f as [] = as"
  by (cases as) auto

lemma mset_mergeKey: "mset (mergeKey f as bs) = mset as + mset bs"
  by (induction f as bs rule: mergeKey.induct) auto

lemma set_mergeKey: "set (mergeKey f as bs) = set as \<union> set bs"
  by (induction f as bs rule: mergeKey.induct) auto

lemma sorted_mergeKey:
  "sorted (map f as) \<Longrightarrow> sorted (map f bs) \<Longrightarrow> sorted (map f (mergeKey f as bs))"
  by (induction f as bs rule: mergeKey.induct) (auto simp: set_mergeKey)

lemma filter_mergeKey:
  "sorted (map f as) \<Longrightarrow> sorted (map f bs) \<Longrightarrow>
   filter (\<lambda>x. k = f x) (mergeKey f as bs) = filter (\<lambda>x. k = f x) as @ filter (\<lambda>x. k = f x) bs"
proof (induction f as bs rule: mergeKey.induct)
  case (3 f a as b bs)
  let ?P = "\<lambda>x. k = f x"
  show ?case
  proof (cases "f a \<le> f b")
    case True
    from "3.prems" have "sorted (map f as)" by simp
    note IH = "3.IH"(1) [OF True this "3.prems"(2)]
    have step: "mergeKey f (a # as) (b # bs) = a # mergeKey f as (b # bs)"
      using True by simp
    have "filter ?P (a # mergeKey f as (b # bs))
        = filter ?P [a] @ filter ?P (mergeKey f as (b # bs))" by simp
    also have "\<dots> = filter ?P [a] @ filter ?P as @ filter ?P (b # bs)"
      by (simp only: IH)
    also have "\<dots> = filter ?P (a # as) @ filter ?P (b # bs)" by simp
    finally show ?thesis by (simp only: step)
  next
    case False
    then have lt: "f b < f a" by simp
    from "3.prems" have "sorted (map f bs)" by simp
    note IH = "3.IH"(2) [OF False "3.prems"(1) this]
    have step: "mergeKey f (a # as) (b # bs) = b # mergeKey f (a # as) bs"
      using False by simp
    have none: "filter ?P [b] \<noteq> [] \<Longrightarrow> filter ?P (a # as) = []"
      using lt "3.prems"(1) by (auto simp: filter_empty_conv)
    have "filter ?P (b # mergeKey f (a # as) bs)
        = filter ?P [b] @ filter ?P (mergeKey f (a # as) bs)" by simp
    also have "\<dots> = filter ?P [b] @ filter ?P (a # as) @ filter ?P bs"
      by (simp only: IH)
    also have "\<dots> = filter ?P (a # as) @ filter ?P [b] @ filter ?P bs"
      using none by (cases "filter ?P [b] = []") simp_all
    also have "\<dots> = filter ?P (a # as) @ filter ?P (b # bs)" by simp
    finally show ?thesis by (simp only: step)
  qed
qed simp_all

lemma sort_key_append_merge:
  fixes f :: "'a \<Rightarrow> real"
  shows "sort_key f (xs @ ys) = mergeKey f (sort_key f xs) (sort_key f ys)"
proof (rule properties_for_sort_key)
  show "mset (mergeKey f (sort_key f xs) (sort_key f ys)) = mset (xs @ ys)"
    by (simp add: mset_mergeKey)
next
  fix k
  have flip: "(\<lambda>x. f k = f x) = (\<lambda>y. f y = f k)" by auto
  have "filter (\<lambda>x. f k = f x) (mergeKey f (sort_key f xs) (sort_key f ys))
      = filter (\<lambda>x. f k = f x) (sort_key f xs) @ filter (\<lambda>x. f k = f x) (sort_key f ys)"
    by (rule filter_mergeKey) simp_all
  also have "\<dots> = filter (\<lambda>x. f k = f x) xs @ filter (\<lambda>x. f k = f x) ys"
    unfolding flip by (simp only: sort_key_stable)
  finally show "filter (\<lambda>x. f k = f x) (mergeKey f (sort_key f xs) (sort_key f ys))
      = filter (\<lambda>x. f k = f x) (xs @ ys)"
    by simp
next
  show "sorted (map f (mergeKey f (sort_key f xs) (sort_key f ys)))"
    by (simp add: sorted_mergeKey)
qed

lemma take_mergeKey_take:
  "k \<le> n \<Longrightarrow> take k (mergeKey f (take n as) bs) = take k (mergeKey f as bs)"
proof (induction f as bs arbitrary: k n rule: mergeKey.induct)
  case (1 f bs)
  then show ?case by simp
next
  case (2 f a as)
  then show ?case by (simp add: mergeKey_Nil2 min_def)
next
  case (3 f a as b bs)
  show ?case
  proof (cases k)
    case 0
    then show ?thesis by simp
  next
    case (Suc k')
    with "3.prems" obtain n' where n: "n = Suc n'" and le: "k' \<le> n'" by (cases n) auto
    show ?thesis
    proof (cases "f a \<le> f b")
      case True
      with "3.IH"(1) [OF True le] show ?thesis by (simp add: Suc n)
    next
      case False
      from le have "k' \<le> Suc n'" by simp
      from "3.IH"(2) [OF False this] False show ?thesis by (simp add: Suc n)
    qed
  qed
qed

lemma take_sort_take_append:
  fixes f :: "'a \<Rightarrow> real"
  shows "take k (sort_key f (take k (sort_key f xs) @ ys)) = take k (sort_key f (xs @ ys))"
proof -
  have "sort_key f (take k (sort_key f xs)) = take k (sort_key f xs)"
    by (rule sort_key_id_if_sorted) (simp add: take_map [symmetric])
  then show ?thesis
    by (simp add: sort_key_append_merge take_mergeKey_take)
qed

lemma filter_sorted_takeWhile:
  "sorted (map f xs) \<Longrightarrow> filter (\<lambda>x. f x \<le> c) xs = takeWhile (\<lambda>x. f x \<le> (c::real)) xs"
proof (induction xs)
  case Nil
  then show ?case by simp
next
  case (Cons a xs)
  show ?case
  proof (cases "f a \<le> c")
    case True
    with Cons show ?thesis by simp
  next
    case False
    with Cons.prems have "\<forall>x\<in>set xs. \<not> f x \<le> c" by auto
    then have "filter (\<lambda>x. f x \<le> c) xs = []" by (simp add: filter_empty_conv)
    with False show ?thesis by simp
  qed
qed

lemma takeWhile_take_commute: "takeWhile P (take n xs) = take n (takeWhile P xs)"
proof (induction xs arbitrary: n)
  case Nil
  then show ?case by simp
next
  case (Cons x xs)
  then show ?case by (cases n) auto
qed

subsection \<open>The merge step\<close>

lemma pushScored_append: "pushScored (rs1 @ rs2) acc = pushScored rs2 (pushScored rs1 acc)"
  by (induction rs1 acc rule: pushScored.induct) auto

lemma pushScored_acc: "pushScored rs acc = acc @ pushScored rs []"
proof (induction rs arbitrary: acc)
  case Nil
  then show ?case by simp
next
  case (Cons r rs)
  show ?case
  proof (cases r)
    case None
    with Cons.IH [of acc] show ?thesis by simp
  next
    case (Some m)
    with Cons.IH [of "acc @ [m]"] Cons.IH [of "[m]"] Cons.IH [of acc] show ?thesis by simp
  qed
qed

lemma set_pushScored:
  "set (pushScored rs acc) = set acc \<union> {m. Some m \<in> set rs \<and> js_ge (score m) (Num 0)}"
  by (induction rs acc rule: pushScored.induct) auto

lemma scoredOf_append:
  "scoredOf e d (xs @ ys) = scoredOf e d xs @ scoredOf e d ys"
  unfolding scoredOf_def
  by (simp add: pushScored_append) (rule pushScored_acc)

lemma scoredOf_Nil: "scoredOf e d [] = []"
  by (simp add: scoredOf_def)

lemma scoredOf_item:
  assumes "m \<in> set (scoredOf e d ps)"
  shows "js_ge (score m) (Num 0) \<and> isFinite (score m) \<and> (\<exists>p\<in>set ps. scoreOne e d False p = Some m)"
proof -
  from assms obtain p where "p \<in> set ps" "scoreOne e d False p = Some m" "js_ge (score m) (Num 0)"
    by (auto simp: scoredOf_def set_pushScored)
  with scoreOne_Some [of e d False p m] show ?thesis by auto
qed

subsection \<open>One round of each loop\<close>

lemma publishedMatches_append:
  "publishedMatches (xs @ ys) = publishedMatches xs @ publishedMatches ys"
  by (induction xs rule: publishedMatches.induct) auto

lemma publishedProgress_append:
  "publishedProgress (xs @ ys) = publishedProgress xs @ publishedProgress ys"
  by (induction xs rule: publishedProgress.induct) auto

lemma chunkBody_scoredAll:
  "\<not> aborted st \<Longrightarrow>
   scoredAll (chunkBody e d N batch start i st)
     = scoredAll st @ scoredOf e d (take CONCURRENCY (drop i batch))"
  by (simp add: chunkBody_def Let_def promiseAll_eq_map suspend_def scoredOf_def)
     (rule pushScored_acc)

lemma chunkBody_trace:
  "trace (chunkBody e d N batch start i st)
     = trace st @ (if pressed e (awaits st) then [AbortScan] else [])
         @ [SetProgress (min N (start + (i + CONCURRENCY))) N]"
  by (simp add: chunkBody_def Let_def suspend_def)

lemma chunkBody_aborted:
  "aborted (chunkBody e d N batch start i st) = (aborted st \<or> pressed e (awaits st))"
  by (simp add: chunkBody_def Let_def suspend_def)

lemma chunkBody_awaits:
  "awaits (chunkBody e d N batch start i st) = Suc (awaits st)"
  by (simp add: chunkBody_def Let_def suspend_def)

declare chunkLoop.simps [simp del] batchLoop.simps [simp del]

lemma chunkLoop_rule:
  assumes "I i st"
    and "\<And>i st. I i st \<Longrightarrow> i < length batch \<Longrightarrow> \<not> aborted st
            \<Longrightarrow> I (i + CONCURRENCY) (chunkBody e d N batch start i st)"
  shows "\<exists>i'. I i' (chunkLoop e d N batch start i st)
           \<and> (length batch \<le> i' \<or> aborted (chunkLoop e d N batch start i st))"
  using assms
proof (induction e d N batch start i st rule: chunkLoop.induct)
  case (1 e d N batch start i st)
  show ?case
  proof (cases "i < length batch \<and> \<not> aborted st")
    case True
    then have "I (i + CONCURRENCY) (chunkBody e d N batch start i st)"
      using "1.prems" by blast
    from "1.IH" [OF _ _ this "1.prems"(2)] True show ?thesis
      by (subst (1 2) chunkLoop.simps) simp
  next
    case False
    with "1.prems"(1) show ?thesis
      by (subst (1 2) chunkLoop.simps) (auto intro: exI [of _ i])
  qed
qed

lemma batchLoop_rule:
  assumes "J start st"
    and "\<And>start st. J start st \<Longrightarrow> start < length pool \<Longrightarrow> \<not> aborted st
            \<Longrightarrow> J (start + scanBatchSize) (batchBody e d thr pool start st)"
  shows "\<exists>s'. J s' (batchLoop e d thr pool start st)
           \<and> (length pool \<le> s' \<or> aborted (batchLoop e d thr pool start st))"
  using assms
proof (induction e d thr pool start st rule: batchLoop.induct)
  case (1 e d thr pool start st)
  show ?case
  proof (cases "start < length pool \<and> \<not> aborted st")
    case True
    then have "J (start + scanBatchSize) (batchBody e d thr pool start st)"
      using "1.prems" by blast
    from "1.IH" [OF _ _ this "1.prems"(2)] True show ?thesis
      by (subst (1 2) batchLoop.simps) simp
  next
    case False
    with "1.prems"(1) show ?thesis
      by (subst (1 2) batchLoop.simps) (auto intro: exI [of _ start])
  qed
qed

subsection \<open>Every recorded and every published item is an admitted score of a pool photo\<close>

lemma set_keepTop: "set (keepTop arr) \<subseteq> set arr"
  using set_take_subset [of TOP_KEEP "sortBy byScoreDesc arr"]
  by (auto simp: keepTop_def Let_def set_sortBy)

lemma publishStep_facts:
  "scoredAll (publishStep thr st) = scoredAll st"
  "aborted (publishStep thr st) = aborted st"
  "awaits (publishStep thr st) = awaits st"
  "trace (publishStep thr st)
     = trace st @ [SetMatches (take 8 (sortBy byScoreDesc
          (filter (\<lambda>x. js_ge (score x) (Num thr)) (scoredAll st))))]"
  by (auto simp: publishStep_def Let_def)

lemma chunkLoop_items:
  assumes "\<forall>m\<in>set (scoredAll st). A m"
    and "\<And>m. m \<in> set (scoredOf e d batch) \<Longrightarrow> A m"
  shows "(\<forall>m\<in>set (scoredAll (chunkLoop e d N batch start i st)). A m)
       \<and> publishedMatches (trace (chunkLoop e d N batch start i st)) = publishedMatches (trace st)"
proof -
  let ?I = "\<lambda>(i::nat) (st'::session). (\<forall>m\<in>set (scoredAll st'). A m)
      \<and> publishedMatches (trace st') = publishedMatches (trace st)"
  have sub: "set (scoredOf e d (take CONCURRENCY (drop i batch))) \<subseteq> set (scoredOf e d batch)" for i
  proof -
    have "batch = take i batch @ take CONCURRENCY (drop i batch) @ drop CONCURRENCY (drop i batch)"
      by (simp only: append_take_drop_id)
    then have "scoredOf e d batch = scoredOf e d (take i batch)
        @ scoredOf e d (take CONCURRENCY (drop i batch))
        @ scoredOf e d (drop CONCURRENCY (drop i batch))"
      by (simp only: scoredOf_append [symmetric])
    then show ?thesis by auto
  qed
  have "\<exists>i'. ?I i' (chunkLoop e d N batch start i st)
      \<and> (length batch \<le> i' \<or> aborted (chunkLoop e d N batch start i st))"
  proof (rule chunkLoop_rule [where I = ?I])
    show "?I i st" using assms(1) by simp
  next
    fix i st' assume "?I i st'" "i < length batch" "\<not> aborted st'"
    then show "?I (i + CONCURRENCY) (chunkBody e d N batch start i st')"
      using sub [of i] assms(2)
      by (auto simp: chunkBody_scoredAll chunkBody_trace publishedMatches_append)
  qed
  then show ?thesis by blast
qed

lemma batchBody_items:
  assumes "\<forall>m\<in>set (scoredAll st). A m"
    and "\<forall>ms\<in>set (publishedMatches (trace st)). \<forall>m\<in>set ms. A m \<and> js_ge (score m) (Num thr)"
    and "\<And>m. m \<in> set (scoredOf e d pool) \<Longrightarrow> A m"
  shows "(\<forall>m\<in>set (scoredAll (batchBody e d thr pool start st)). A m)
       \<and> (\<forall>ms\<in>set (publishedMatches (trace (batchBody e d thr pool start st))).
            \<forall>m\<in>set ms. A m \<and> js_ge (score m) (Num thr))"
proof -
  define batch where "batch = take (min (length pool) (start + scanBatchSize) - start) (drop start pool)"
  define st1 where "st1 = chunkLoop e d (length pool) batch start 0 st"
  have "pool = take start pool @ batch @ drop (min (length pool) (start + scanBatchSize) - start) (drop start pool)"
    unfolding batch_def by (simp only: append_take_drop_id)
  then have "scoredOf e d pool = scoredOf e d (take start pool) @ scoredOf e d batch
      @ scoredOf e d (drop (min (length pool) (start + scanBatchSize) - start) (drop start pool))"
    by (simp only: scoredOf_append [symmetric])
  then have "set (scoredOf e d batch) \<subseteq> set (scoredOf e d pool)" by auto
  with assms(3) have "\<And>m. m \<in> set (scoredOf e d batch) \<Longrightarrow> A m" by blast
  from chunkLoop_items [of st A e d batch "length pool" start 0, OF assms(1) this]
  have 1: "\<forall>m\<in>set (scoredAll st1). A m"
    and 2: "publishedMatches (trace st1) = publishedMatches (trace st)"
    unfolding st1_def by blast+
  have 3: "\<forall>m\<in>set (keepTop (scoredAll st1)). A m"
    using 1 by (auto dest: subsetD [OF set_keepTop])
  have 4: "\<forall>m\<in>set (take 8 (sortBy byScoreDesc
          (filter (\<lambda>x. js_ge (score x) (Num thr)) (keepTop (scoredAll st1))))).
        A m \<and> js_ge (score m) (Num thr)"
    using 3 by (auto dest!: in_set_takeD simp: set_sortBy)
  have sa: "scoredAll (batchBody e d thr pool start st) = keepTop (scoredAll st1)"
    by (simp add: batchBody_def Let_def publishStep_facts st1_def batch_def)
  have tr: "publishedMatches (trace (batchBody e d thr pool start st))
      = publishedMatches (trace st) @ [take 8 (sortBy byScoreDesc
          (filter (\<lambda>x. js_ge (score x) (Num thr)) (keepTop (scoredAll st1))))]"
    using 2 by (simp add: batchBody_def Let_def publishStep_facts publishedMatches_append st1_def batch_def)
  show ?thesis
    unfolding sa tr
  proof (intro conjI)
    show "\<forall>m\<in>set (keepTop (scoredAll st1)). A m" by (rule 3)
  next
    define top where "top = take 8 (sortBy byScoreDesc
          (filter (\<lambda>x. js_ge (score x) (Num thr)) (keepTop (scoredAll st1))))"
    have "\<forall>ms\<in>set (publishedMatches (trace st) @ [top]).
          \<forall>m\<in>set ms. A m \<and> js_ge (score m) (Num thr)"
      using 4 assms(2) unfolding top_def [symmetric] by simp
    then show "\<forall>ms\<in>set (publishedMatches (trace st) @ [take 8 (sortBy byScoreDesc
          (filter (\<lambda>x. js_ge (score x) (Num thr)) (keepTop (scoredAll st1))))]).
          \<forall>m\<in>set ms. A m \<and> js_ge (score m) (Num thr)"
      unfolding top_def .
  qed
qed

lemma batchLoop_items:
  assumes "\<forall>m\<in>set (scoredAll st). A m"
    and "\<forall>ms\<in>set (publishedMatches (trace st)). \<forall>m\<in>set ms. A m \<and> js_ge (score m) (Num thr)"
    and "\<And>m. m \<in> set (scoredOf e d pool) \<Longrightarrow> A m"
  shows "(\<forall>m\<in>set (scoredAll (batchLoop e d thr pool start st)). A m)
       \<and> (\<forall>ms\<in>set (publishedMatches (trace (batchLoop e d thr pool start st))).
            \<forall>m\<in>set ms. A m \<and> js_ge (score m) (Num thr))"
proof -
  let ?J = "\<lambda>(s::nat) (st'::session). (\<forall>m\<in>set (scoredAll st'). A m)
      \<and> (\<forall>ms\<in>set (publishedMatches (trace st')). \<forall>m\<in>set ms. A m \<and> js_ge (score m) (Num thr))"
  have "\<exists>s'. ?J s' (batchLoop e d thr pool start st)
      \<and> (length pool \<le> s' \<or> aborted (batchLoop e d thr pool start st))"
  proof (rule batchLoop_rule [where J = ?J])
    show "?J start st" using assms(1,2) by simp
  next
    fix s st' assume "?J s st'" "s < length pool" "\<not> aborted st'"
    then show "?J (s + scanBatchSize) (batchBody e d thr pool s st')"
      using batchBody_items [of st' A thr e d pool s] assms(3) by blast
  qed
  then show ?thesis by blast
qed

lemma suspend_facts:
  "scoredAll (suspend e st) = scoredAll st"
  "publishedMatches (trace (suspend e st)) = publishedMatches (trace st)"
  "publishedProgress (trace (suspend e st)) = publishedProgress (trace st)"
  "aborted (suspend e st) = (aborted st \<or> pressed e (awaits st))"
  by (auto simp: suspend_def publishedMatches_append publishedProgress_append)

lemma runMatching_unfold:
  "runMatching e thr photos =
     (if photos = [] then (NoPhotos, \<lparr>scoredAll = [], aborted = False, awaits = 0, trace = []\<rparr>)
      else case selfie e of
             PrepThrows \<Rightarrow> (Failed, suspend e \<lparr>scoredAll = [], aborted = False, awaits = 0,
                 trace = [SetMatches [], SetProgress 0 (min scanMax (length photos))]\<rparr>)
           | NoSelfieFace \<Rightarrow> (NoFace, suspend e \<lparr>scoredAll = [], aborted = False, awaits = 0,
                 trace = [SetMatches [], SetProgress 0 (min scanMax (length photos))]\<rparr>)
           | SelfieDesc d \<Rightarrow>
               (let st1 = batchLoop e d thr (take (min scanMax (length photos)) photos) 0
                     (suspend e \<lparr>scoredAll = [], aborted = False, awaits = 0,
                        trace = [SetMatches [], SetProgress 0 (min scanMax (length photos))]\<rparr>)
                in if aborted st1 then (Cancelled, st1)
                   else (Completed, st1\<lparr>scoredAll := sortBy byScoreDesc (scoredAll st1),
                      trace := trace st1 @ [SetMatches (take 8 (filter (\<lambda>x. js_ge (score x) (Num thr))
                          (sortBy byScoreDesc (scoredAll st1))))]\<rparr>)))"
  by (simp add: runMatching_def Let_def split: selfieResult.splits)

lemma runMatching_items:
  assumes run: "runMatching e thr photos = (out, st)"
  shows "(\<forall>m\<in>set (scoredAll st).
            js_ge (score m) (Num 0)
            \<and> (\<exists>d p. selfie e = SelfieDesc d \<and> p \<in> set photos \<and> scoreOne e d False p = Some m))
       \<and> (\<forall>ms\<in>set (publishedMatches (trace st)). \<forall>m\<in>set ms.
            (js_ge (score m) (Num 0)
             \<and> (\<exists>d p. selfie e = SelfieDesc d \<and> p \<in> set photos \<and> scoreOne e d False p = Some m))
            \<and> js_ge (score m) (Num thr))"
proof -
  define A where "A = (\<lambda>m. js_ge (score m) (Num 0)
      \<and> (\<exists>d p. selfie e = SelfieDesc d \<and> p \<in> set photos \<and> scoreOne e d False p = Some m))"
  define st0 where "st0 = suspend e \<lparr>scoredAll = [], aborted = False, awaits = 0,
      trace = [SetMatches [], SetProgress 0 (min scanMax (length photos))]\<rparr>"
  have st0: "scoredAll st0 = []" "publishedMatches (trace st0) = [[]]"
    by (simp_all add: st0_def suspend_facts)
  have goal: "(\<forall>m\<in>set (scoredAll st). A m)
      \<and> (\<forall>ms\<in>set (publishedMatches (trace st)). \<forall>m\<in>set ms. A m \<and> js_ge (score m) (Num thr))"
  proof (cases "photos = []")
    case True
    with run have "st = \<lparr>scoredAll = [], aborted = False, awaits = 0, trace = []\<rparr>"
      by (simp add: runMatching_unfold)
    then show ?thesis by simp
  next
    case False
    show ?thesis
    proof (cases "selfie e")
      case PrepThrows
      with run False have "st = st0" by (simp add: runMatching_unfold st0_def)
      with st0 show ?thesis by simp
    next
      case NoSelfieFace
      with run False have "st = st0" by (simp add: runMatching_unfold st0_def)
      with st0 show ?thesis by simp
    next
      case (SelfieDesc d)
      define pool where "pool = take (min scanMax (length photos)) photos"
      define st1 where "st1 = batchLoop e d thr pool 0 st0"
      have adm: "A m" if "m \<in> set (scoredOf e d pool)" for m
      proof -
        from scoredOf_item [OF that] obtain p where "js_ge (score m) (Num 0)"
          "p \<in> set pool" "scoreOne e d False p = Some m" by blast
        moreover from \<open>p \<in> set pool\<close> have "p \<in> set photos"
          unfolding pool_def by (rule in_set_takeD)
        ultimately show ?thesis using SelfieDesc unfolding A_def by blast
      qed
      have init1: "\<forall>m\<in>set (scoredAll st0). A m" by (simp add: st0)
      have init2: "\<forall>ms\<in>set (publishedMatches (trace st0)). \<forall>m\<in>set ms. A m \<and> js_ge (score m) (Num thr)"
        by (simp add: st0)
      from batchLoop_items [of st0 A thr e d pool 0, OF init1 init2 adm]
      have 1: "\<forall>m\<in>set (scoredAll st1). A m"
        and 2: "\<forall>ms\<in>set (publishedMatches (trace st1)). \<forall>m\<in>set ms. A m \<and> js_ge (score m) (Num thr)"
        unfolding st1_def by blast+
      show ?thesis
      proof (cases "aborted st1")
        case True
        with run False SelfieDesc have "st = st1"
          by (simp add: runMatching_unfold st0_def st1_def pool_def)
        with 1 2 show ?thesis by simp
      next
        case nab: False
        define sorted' where "sorted' = sortBy byScoreDesc (scoredAll st1)"
        define top where "top = take 8 (filter (\<lambda>x. js_ge (score x) (Num thr)) sorted')"
        from run False SelfieDesc nab
        have "st = st1\<lparr>scoredAll := sorted', trace := trace st1 @ [SetMatches top]\<rparr>"
          by (simp add: runMatching_unfold st0_def st1_def pool_def sorted'_def top_def Let_def)
        then have sa: "scoredAll st = sorted'"
          and pm: "publishedMatches (trace st) = publishedMatches (trace st1) @ [top]"
          by (simp_all add: publishedMatches_append)
        have 3: "\<forall>m\<in>set sorted'. A m" using 1 by (simp add: sorted'_def set_sortBy)
        have 4: "\<forall>m\<in>set top. A m \<and> js_ge (score m) (Num thr)"
        proof
          fix m assume "m \<in> set top"
          then have "m \<in> set (filter (\<lambda>x. js_ge (score x) (Num thr)) sorted')"
            unfolding top_def by (rule in_set_takeD)
          with 3 show "A m \<and> js_ge (score m) (Num thr)" by simp
        qed
        show ?thesis unfolding sa pm using 2 3 4 by simp
      qed
    qed
  qed
  then show ?thesis unfolding A_def .
qed

subsection \<open>The published progress\<close>

lemma progressOK_mono: "progressOK N b tr \<Longrightarrow> b \<le> b' \<Longrightarrow> progressOK N b' tr"
  unfolding progressOK_def by fastforce

lemma progressOK_snoc:
  assumes "progressOK N b tr" "b \<le> b'"
  shows "progressOK N b' (tr @ [SetProgress (min N b') N])"
proof -
  have "\<forall>x\<in>set (map fst (publishedProgress tr)). x \<le> min N b'"
    using assms unfolding progressOK_def by fastforce
  then have "sorted (map fst (publishedProgress tr) @ [min N b'])"
    using assms(1) unfolding progressOK_def by (simp add: sorted_append)
  moreover have "\<forall>(x, t)\<in>set (publishedProgress tr). t = N \<and> x \<le> N \<and> x \<le> b'"
    using assms unfolding progressOK_def by fastforce
  ultimately show ?thesis
    unfolding progressOK_def by (simp add: publishedProgress_append)
qed

lemma progressOK_abort: "progressOK N b tr \<Longrightarrow> progressOK N b (tr @ [AbortScan])"
  unfolding progressOK_def by (simp add: publishedProgress_append)

lemma progressOK_matches: "progressOK N b tr \<Longrightarrow> progressOK N b (tr @ [SetMatches ms])"
  unfolding progressOK_def by (simp add: publishedProgress_append)

lemma chunkBody_progress:
  assumes "progressOK N (start + i) (trace st)"
  shows "progressOK N (start + (i + CONCURRENCY)) (trace (chunkBody e d N batch start i st))"
proof -
  define tr where "tr = trace st @ (if pressed e (awaits st) then [AbortScan] else [])"
  have "progressOK N (start + i) tr"
    using assms progressOK_abort unfolding tr_def by simp
  then have "progressOK N (start + (i + CONCURRENCY))
      (tr @ [SetProgress (min N (start + (i + CONCURRENCY))) N])"
    by (rule progressOK_snoc) simp
  then show ?thesis by (simp add: chunkBody_trace tr_def)
qed

lemma chunkLoop_progress:
  assumes "progressOK N start (trace st)" and "length batch \<le> scanBatchSize"
  shows "progressOK N (start + scanBatchSize) (trace (chunkLoop e d N batch start 0 st))"
proof -
  let ?I = "\<lambda>(i::nat) (st'::session). even i \<and> i \<le> scanBatchSize \<and> progressOK N (start + i) (trace st')"
  have "\<exists>i'. ?I i' (chunkLoop e d N batch start 0 st)
      \<and> (length batch \<le> i' \<or> aborted (chunkLoop e d N batch start 0 st))"
  proof (rule chunkLoop_rule [where I = ?I])
    show "?I 0 st" using assms(1) by simp
  next
    fix i st' assume I: "?I i st'" and lt: "i < length batch"
    from I lt assms(2) have "i + CONCURRENCY \<le> scanBatchSize" "even (i + CONCURRENCY)"
      by (auto simp: scanBatchSize_def CONCURRENCY_def elim!: evenE)
    moreover from I have "progressOK N (start + (i + CONCURRENCY))
        (trace (chunkBody e d N batch start i st'))"
      by (simp add: chunkBody_progress)
    ultimately show "?I (i + CONCURRENCY) (chunkBody e d N batch start i st')" by simp
  qed
  then obtain i' where "i' \<le> scanBatchSize"
    "progressOK N (start + i') (trace (chunkLoop e d N batch start 0 st))" by blast
  then show ?thesis by (auto intro: progressOK_mono)
qed

lemma batchBody_progress:
  assumes "progressOK (length pool) start (trace st)"
  shows "progressOK (length pool) (start + scanBatchSize) (trace (batchBody e d thr pool start st))"
proof -
  define batch where "batch = take (min (length pool) (start + scanBatchSize) - start) (drop start pool)"
  define st1 where "st1 = chunkLoop e d (length pool) batch start 0 st"
  have "length batch \<le> scanBatchSize" unfolding batch_def by simp
  from chunkLoop_progress [OF assms this]
  have "progressOK (length pool) (start + scanBatchSize) (trace st1)" unfolding st1_def .
  then have "progressOK (length pool) (start + scanBatchSize)
      (trace st1 @ [SetMatches (take 8 (sortBy byScoreDesc
          (filter (\<lambda>x. js_ge (score x) (Num thr)) (keepTop (scoredAll st1)))))])"
    by (rule progressOK_matches)
  then show ?thesis
    by (simp add: batchBody_def Let_def publishStep_facts st1_def batch_def)
qed

lemma batchLoop_progress:
  assumes "progressOK (length pool) start (trace st)"
  shows "\<exists>b. progressOK (length pool) b (trace (batchLoop e d thr pool start st))"
proof -
  let ?J = "\<lambda>(s::nat) (st'::session). progressOK (length pool) s (trace st')"
  have "\<exists>s'. ?J s' (batchLoop e d thr pool start st)
      \<and> (length pool \<le> s' \<or> aborted (batchLoop e d thr pool start st))"
    by (rule batchLoop_rule [where J = ?J]) (simp_all add: assms batchBody_progress)
  then show ?thesis by blast
qed

lemma runMatching_progress:
  assumes run: "runMatching e thr photos = (out, st)"
  shows "\<exists>b. progressOK (min scanMax (length photos)) b (trace st)"
proof -
  define N where "N = min scanMax (length photos)"
  define st0 where "st0 = suspend e \<lparr>scoredAll = [], aborted = False, awaits = 0,
      trace = [SetMatches [], SetProgress 0 N]\<rparr>"
  have p0: "progressOK N 0 (trace st0)"
    by (simp add: progressOK_def st0_def suspend_facts)
  have ex: "\<exists>b. progressOK N b (trace st)"
  proof (cases "photos = []")
    case True
    with run have "st = \<lparr>scoredAll = [], aborted = False, awaits = 0, trace = []\<rparr>"
      by (simp add: runMatching_unfold)
    then show ?thesis by (simp add: progressOK_def)
  next
    case False
    show ?thesis
    proof (cases "selfie e")
      case PrepThrows
      with run False have "st = st0" by (simp add: runMatching_unfold st0_def N_def)
      with p0 show ?thesis by blast
    next
      case NoSelfieFace
      with run False have "st = st0" by (simp add: runMatching_unfold st0_def N_def)
      with p0 show ?thesis by blast
    next
      case (SelfieDesc d)
      define pool where "pool = take N photos"
      define st1 where "st1 = batchLoop e d thr pool 0 st0"
      have len: "length pool = N" by (simp add: pool_def N_def)
      from batchLoop_progress [of pool 0 st0 e d thr] p0
      obtain b where b: "progressOK N b (trace st1)" unfolding st1_def len by blast
      show ?thesis
      proof (cases "aborted st1")
        case True
        with run False SelfieDesc have "st = st1"
          by (simp add: runMatching_unfold st0_def st1_def pool_def N_def)
        with b show ?thesis by blast
      next
        case nab: False
        define top where "top = take 8 (filter (\<lambda>x. js_ge (score x) (Num thr))
            (sortBy byScoreDesc (scoredAll st1)))"
        from run False SelfieDesc nab
        have "trace st = trace st1 @ [SetMatches top]"
          by (auto simp: runMatching_unfold st0_def st1_def pool_def N_def top_def Let_def)
        with progressOK_matches [OF b, of top] show ?thesis by auto
      qed
    qed
  qed
  then show ?thesis unfolding N_def .
qed

subsection \<open>A session that is never cancelled\<close>

lemma finite_scoredOf: "list_all (\<lambda>m. isFinite (score m)) (scoredOf e d ps)"
  by (auto simp: list_all_iff dest: scoredOf_item)

lemma keepTop_sort_key:
  "list_all (\<lambda>m. isFinite (score m)) arr \<Longrightarrow> keepTop arr = take TOP_KEEP (sort_key negScore arr)"
  by (simp add: keepTop_def Let_def sortBy_sort_key)

lemma chunkLoop_no_abort:
  assumes never: "\<forall>k. \<not> pressed e k" and nab: "\<not> aborted st"
    and len: "length batch \<le> scanBatchSize" and ne: "batch \<noteq> []"
  shows "\<not> aborted (chunkLoop e d N batch start 0 st)
       \<and> scoredAll (chunkLoop e d N batch start 0 st) = scoredAll st @ scoredOf e d batch
       \<and> publishedProgress (trace (chunkLoop e d N batch start 0 st)) \<noteq> []
       \<and> (\<exists>i'. length batch \<le> i' \<and> i' \<le> scanBatchSize
             \<and> last (publishedProgress (trace (chunkLoop e d N batch start 0 st)))
                 = (min N (start + i'), N))"
proof -
  define st' where "st' = chunkLoop e d N batch start 0 st"
  let ?I = "\<lambda>(i::nat) (s::session). \<not> aborted s
      \<and> scoredAll s = scoredAll st @ scoredOf e d (take i batch)
      \<and> even i \<and> i \<le> scanBatchSize
      \<and> (0 < i \<longrightarrow> publishedProgress (trace s) \<noteq> []
            \<and> last (publishedProgress (trace s)) = (min N (start + i), N))"
  have "\<exists>i'. ?I i' (chunkLoop e d N batch start 0 st)
      \<and> (length batch \<le> i' \<or> aborted (chunkLoop e d N batch start 0 st))"
  proof (rule chunkLoop_rule [where I = ?I])
    show "?I 0 st" using nab by (simp add: scoredOf_Nil)
  next
    fix i s assume I: "?I i s" and lt: "i < length batch" and "\<not> aborted s"
    from I lt len have b: "i + CONCURRENCY \<le> scanBatchSize" "even (i + CONCURRENCY)"
      by (auto simp: scanBatchSize_def CONCURRENCY_def elim!: evenE)
    have t: "take (i + CONCURRENCY) batch = take i batch @ take CONCURRENCY (drop i batch)"
      by (simp add: take_add)
    have sa: "scoredAll (chunkBody e d N batch start i s)
        = scoredAll st @ scoredOf e d (take (i + CONCURRENCY) batch)"
      using I by (simp add: chunkBody_scoredAll t scoredOf_append)
    have tr: "publishedProgress (trace (chunkBody e d N batch start i s))
        = publishedProgress (trace s) @ [(min N (start + (i + CONCURRENCY)), N)]"
      using never by (simp add: chunkBody_trace publishedProgress_append)
    have ab: "\<not> aborted (chunkBody e d N batch start i s)"
      using I never by (simp add: chunkBody_aborted)
    show "?I (i + CONCURRENCY) (chunkBody e d N batch start i s)"
      using sa ab b by (simp add: tr)
  qed
  then obtain i' where i': "?I i' st'" "length batch \<le> i' \<or> aborted st'"
    unfolding st'_def by blast
  then have ge: "length batch \<le> i'" by blast
  with ne have "0 < i'" by (cases batch) auto
  with i' ge have "\<not> aborted st'" "scoredAll st' = scoredAll st @ scoredOf e d batch"
    "publishedProgress (trace st') \<noteq> []" "i' \<le> scanBatchSize"
    "last (publishedProgress (trace st')) = (min N (start + i'), N)"
    by simp_all
  with ge show ?thesis unfolding st'_def by blast
qed

lemma batchBody_no_abort:
  assumes never: "\<forall>k. \<not> pressed e k" and nab: "\<not> aborted st"
    and sa: "scoredAll st = take TOP_KEEP (sort_key negScore (scoredOf e d (take start pool)))"
    and lt: "start < length pool"
  shows "\<not> aborted (batchBody e d thr pool start st)
       \<and> scoredAll (batchBody e d thr pool start st)
           = take TOP_KEEP (sort_key negScore (scoredOf e d (take (start + scanBatchSize) pool)))
       \<and> publishedProgress (trace (batchBody e d thr pool start st)) \<noteq> []
       \<and> last (publishedProgress (trace (batchBody e d thr pool start st)))
           = (min (length pool) (start + scanBatchSize), length pool)"
proof -
  define N where "N = length pool"
  define batch where "batch = take (min N (start + scanBatchSize) - start) (drop start pool)"
  define st1 where "st1 = chunkLoop e d N batch start 0 st"
  have len: "length batch = min N (start + scanBatchSize) - start"
    unfolding batch_def N_def by simp
  then have le: "length batch \<le> scanBatchSize" by simp
  from len lt have ne: "batch \<noteq> []"
    by (auto simp: N_def scanBatchSize_def)
  from chunkLoop_no_abort [OF never nab le ne, of d N start]
  obtain i' where 1: "\<not> aborted st1" "scoredAll st1 = scoredAll st @ scoredOf e d batch"
    "publishedProgress (trace st1) \<noteq> []" "length batch \<le> i'" "i' \<le> scanBatchSize"
    "last (publishedProgress (trace st1)) = (min N (start + i'), N)"
    unfolding st1_def by blast
  have pool: "take start pool @ batch = take (start + scanBatchSize) pool"
    unfolding batch_def N_def by (simp add: take_add min_def)
  have "min N (start + i') = min N (start + scanBatchSize)"
    using len 1(4,5) lt unfolding N_def by (auto simp: min_def)
  with 1 have last: "last (publishedProgress (trace st1)) = (min N (start + scanBatchSize), N)"
    by simp
  have fin: "list_all (\<lambda>m. isFinite (score m)) (scoredAll st1)"
    using finite_scoredOf [of e d "take start pool"] finite_scoredOf [of e d batch]
    by (auto simp: 1 sa list_all_iff dest: in_set_takeD)
  have "keepTop (scoredAll st1)
      = take TOP_KEEP (sort_key negScore
          (take TOP_KEEP (sort_key negScore (scoredOf e d (take start pool))) @ scoredOf e d batch))"
    using keepTop_sort_key [OF fin] by (simp add: 1 sa)
  also have "\<dots> = take TOP_KEEP (sort_key negScore (scoredOf e d (take start pool) @ scoredOf e d batch))"
    by (rule take_sort_take_append)
  also have "\<dots> = take TOP_KEEP (sort_key negScore (scoredOf e d (take (start + scanBatchSize) pool)))"
    by (simp only: scoredOf_append [symmetric] pool)
  finally have kt: "keepTop (scoredAll st1)
      = take TOP_KEEP (sort_key negScore (scoredOf e d (take (start + scanBatchSize) pool)))" .
  have body: "batchBody e d thr pool start st = publishStep thr (st1\<lparr>scoredAll := keepTop (scoredAll st1)\<rparr>)"
    by (simp add: batchBody_def Let_def st1_def batch_def N_def)
  show ?thesis
    unfolding body using 1(1,3) last kt
    by (simp add: publishStep_facts publishedProgress_append N_def)
qed

lemma batchLoop_no_abort:
  assumes never: "\<forall>k. \<not> pressed e k" and nab: "\<not> aborted st" and "scoredAll st = []"
    and ne: "pool \<noteq> []"
  shows "\<not> aborted (batchLoop e d thr pool 0 st)
       \<and> scoredAll (batchLoop e d thr pool 0 st)
           = take TOP_KEEP (sort_key negScore (scoredOf e d pool))
       \<and> publishedProgress (trace (batchLoop e d thr pool 0 st)) \<noteq> []
       \<and> last (publishedProgress (trace (batchLoop e d thr pool 0 st))) = (length pool, length pool)"
proof -
  define st' where "st' = batchLoop e d thr pool 0 st"
  let ?J = "\<lambda>(s::nat) (x::session). \<not> aborted x
      \<and> scoredAll x = take TOP_KEEP (sort_key negScore (scoredOf e d (take s pool)))
      \<and> (0 < s \<longrightarrow> publishedProgress (trace x) \<noteq> []
            \<and> last (publishedProgress (trace x)) = (min (length pool) s, length pool))"
  have "\<exists>s'. ?J s' (batchLoop e d thr pool 0 st)
      \<and> (length pool \<le> s' \<or> aborted (batchLoop e d thr pool 0 st))"
  proof (rule batchLoop_rule [where J = ?J])
    show "?J 0 st" using assms by (simp add: scoredOf_Nil)
  next
    fix s x assume J: "?J s x" and lt: "s < length pool" and "\<not> aborted x"
    from J have "scoredAll x = take TOP_KEEP (sort_key negScore (scoredOf e d (take s pool)))"
      by blast
    from batchBody_no_abort [OF never \<open>\<not> aborted x\<close> this lt, of thr]
    show "?J (s + scanBatchSize) (batchBody e d thr pool s x)"
      by (simp add: scanBatchSize_def)
  qed
  then obtain s' where s': "?J s' st'" "length pool \<le> s' \<or> aborted st'"
    unfolding st'_def by blast
  then have ge: "length pool \<le> s'" by blast
  with ne have "0 < s'" by (cases pool) auto
  with s' ge show ?thesis unfolding st'_def by simp
qed

lemma take_min_length: "take (min n (length xs)) xs = take n xs"
  by (simp add: min_def)

lemma ge_threshold_negScore:
  "isFinite (score m) \<Longrightarrow> js_ge (score m) (Num thr) = (negScore m \<le> - thr)"
  by (cases "score m") (auto simp: negScore_def)

lemma final_top:
  assumes fin: "list_all (\<lambda>m. isFinite (score m)) S"
  shows "take 8 (filter (\<lambda>x. js_ge (score x) (Num thr))
            (sortBy byScoreDesc (take TOP_KEEP (sort_key negScore S))))
       = take 8 (filter (\<lambda>x. js_ge (score x) (Num thr)) (sort_key negScore S))"
proof -
  define L where "L = sort_key negScore S"
  have finL: "list_all (\<lambda>m. isFinite (score m)) L"
    using fin by (simp add: L_def list_all_iff)
  then have finT: "list_all (\<lambda>m. isFinite (score m)) (take TOP_KEEP L)"
    by (auto simp: list_all_iff dest: in_set_takeD)
  have sortedL: "sorted (map negScore L)" by (simp add: L_def)
  then have sortedT: "sorted (map negScore (take TOP_KEEP L))"
    by (simp add: take_map [symmetric])
  have f: "filter (\<lambda>x. js_ge (score x) (Num thr)) xs = filter (\<lambda>x. negScore x \<le> - thr) xs"
    if "list_all (\<lambda>m. isFinite (score m)) xs" for xs
    using that by (intro filter_cong) (auto simp: list_all_iff ge_threshold_negScore)
  have "sortBy byScoreDesc (take TOP_KEEP L) = take TOP_KEEP L"
    using sortBy_sort_key [OF finT] sort_key_id_if_sorted [OF sortedT] by simp
  then have "take 8 (filter (\<lambda>x. js_ge (score x) (Num thr)) (sortBy byScoreDesc (take TOP_KEEP L)))
      = take 8 (takeWhile (\<lambda>x. negScore x \<le> - thr) (take TOP_KEEP L))"
    by (simp add: f [OF finT] filter_sorted_takeWhile [OF sortedT])
  also have "\<dots> = take 8 (takeWhile (\<lambda>x. negScore x \<le> - thr) L)"
    by (simp add: takeWhile_take_commute TOP_KEEP_def)
  also have "\<dots> = take 8 (filter (\<lambda>x. js_ge (score x) (Num thr)) L)"
    by (simp add: f [OF finL] filter_sorted_takeWhile [OF sortedL])
  finally show ?thesis unfolding L_def .
qed

lemma runMatching_no_abort:
  assumes ne: "photos \<noteq> []" and sd: "selfie e = SelfieDesc d" and never: "\<forall>k. \<not> pressed e k"
  shows "\<exists>st. runMatching e thr photos = (Completed, st)
       \<and> scoredAll st = take TOP_KEEP (sort_key negScore (scoredOf e d (take scanMax photos)))
       \<and> last (publishedMatches (trace st))
           = take 8 (filter (\<lambda>x. js_ge (score x) (Num thr))
               (sort_key negScore (scoredOf e d (take scanMax photos))))
       \<and> last (publishedProgress (trace st))
           = (min scanMax (length photos), min scanMax (length photos))"
proof -
  define N where "N = min scanMax (length photos)"
  define pool where "pool = take N photos"
  define st0 where "st0 = suspend e \<lparr>scoredAll = [], aborted = False, awaits = 0,
      trace = [SetMatches [], SetProgress 0 N]\<rparr>"
  define st1 where "st1 = batchLoop e d thr pool 0 st0"
  define S where "S = scoredOf e d pool"
  have pool: "pool = take scanMax photos" "length pool = N" "pool \<noteq> []"
    using ne by (auto simp: pool_def N_def take_min_length scanMax_def)
  have "\<not> aborted st0" "scoredAll st0 = []"
    using never by (simp_all add: st0_def suspend_facts)
  from batchLoop_no_abort [OF never this pool(3), of d thr]
  have 1: "\<not> aborted st1" "scoredAll st1 = take TOP_KEEP (sort_key negScore S)"
    "publishedProgress (trace st1) \<noteq> []" "last (publishedProgress (trace st1)) = (N, N)"
    unfolding st1_def S_def pool(2) by blast+
  define top where "top = take 8 (filter (\<lambda>x. js_ge (score x) (Num thr))
      (sortBy byScoreDesc (scoredAll st1)))"
  define st where "st = st1\<lparr>scoredAll := sortBy byScoreDesc (scoredAll st1),
      trace := trace st1 @ [SetMatches top]\<rparr>"
  have run: "runMatching e thr photos = (Completed, st)"
    using ne sd 1(1)
    by (simp add: runMatching_unfold Let_def st_def top_def st1_def st0_def pool_def N_def)
  have fin: "list_all (\<lambda>m. isFinite (score m)) S" unfolding S_def by (rule finite_scoredOf)
  then have finT: "list_all (\<lambda>m. isFinite (score m)) (take TOP_KEEP (sort_key negScore S))"
    by (auto simp: list_all_iff dest: in_set_takeD)
  have "sorted (map negScore (take TOP_KEEP (sort_key negScore S)))"
    by (simp add: take_map [symmetric])
  then have "sortBy byScoreDesc (scoredAll st1) = take TOP_KEEP (sort_key negScore S)"
    using sortBy_sort_key [OF finT] by (simp add: 1 sort_key_id_if_sorted)
  then have a: "scoredAll st = take TOP_KEEP (sort_key negScore S)" by (simp add: st_def)
  have "top = take 8 (filter (\<lambda>x. js_ge (score x) (Num thr)) (sort_key negScore S))"
    unfolding top_def 1 by (rule final_top [OF fin])
  then have b: "last (publishedMatches (trace st))
      = take 8 (filter (\<lambda>x. js_ge (score x) (Num thr)) (sort_key negScore S))"
    by (simp add: st_def publishedMatches_append)
  have c: "last (publishedProgress (trace st)) = (N, N)"
    using 1 by (simp add: st_def publishedProgress_append)
  from run a b c show ?thesis unfolding S_def pool(1) N_def by blast
qed

subsection \<open>The latencies of the workers do not matter\<close>

lemma scoreOne_latency: "scoreOne (e\<lparr>latency := l\<rparr>) d ab = scoreOne e d ab"
  by (rule ext) (simp add: scoreOne_def)

lemma suspend_latency: "suspend (e\<lparr>latency := l\<rparr>) st = suspend e st"
  by (simp add: suspend_def)

lemma chunkBody_latency:
  "chunkBody (e\<lparr>latency := l\<rparr>) d N batch start i st = chunkBody e d N batch start i st"
  by (simp add: chunkBody_def Let_def promiseAll_eq_map scoreOne_latency suspend_latency)

lemma chunkLoop_latency:
  "chunkLoop (e\<lparr>latency := l\<rparr>) d N batch start i st = chunkLoop e d N batch start i st"
proof (induction e d N batch start i st rule: chunkLoop.induct)
  case (1 e d N batch start i st)
  show ?case
  proof (cases "i < length batch \<and> \<not> aborted st")
    case True
    with "1.IH" show ?thesis
      by (subst chunkLoop.simps, subst (2) chunkLoop.simps) (simp add: chunkBody_latency)
  next
    case False
    then show ?thesis
      by (subst chunkLoop.simps, subst (2) chunkLoop.simps) auto
  qed
qed

lemma batchBody_latency:
  "batchBody (e\<lparr>latency := l\<rparr>) d thr pool start st = batchBody e d thr pool start st"
  by (simp add: batchBody_def Let_def chunkLoop_latency)

lemma batchLoop_latency:
  "batchLoop (e\<lparr>latency := l\<rparr>) d thr pool start st = batchLoop e d thr pool start st"
proof (induction e d thr pool start st rule: batchLoop.induct)
  case (1 e d thr pool start st)
  show ?case
  proof (cases "start < length pool \<and> \<not> aborted st")
    case True
    with "1.IH" show ?thesis
      by (subst batchLoop.simps, subst (2) batchLoop.simps) (simp add: batchBody_latency)
  next
    case False
    then show ?thesis
      by (subst batchLoop.simps, subst (2) batchLoop.simps) auto
  qed
qed

lemma runMatching_latency:
  "runMatching (e\<lparr>latency := l\<rparr>) thr photos = runMatching e thr photos"
  by (simp add: runMatching_unfold Let_def batchLoop_latency suspend_latency
      split: selfieResult.splits)

lemma runMatching_timing:
  assumes "selfie e1 = selfie e2" "analyze e1 = analyze e2" "pressed e1 = pressed e2"
  shows "runMatching e1 thr photos = runMatching e2 thr photos"
proof -
  from assms have "e2 = e1\<lparr>latency := latency e2\<rparr>" by (intro env.equality) simp_all
  then show ?thesis by (metis runMatching_latency)
qed

subsection \<open>Running the loops on concrete sessions\<close>

lemma chunkLoop_step:
  "i < length batch \<Longrightarrow> \<not> aborted st \<Longrightarrow>
   chunkLoop e d N batch start i st
     = chunkLoop e d N batch start (i + CONCURRENCY) (chunkBody e d N batch start i st)"
  by (subst chunkLoop.simps) simp

lemma chunkLoop_stop:
  "\<not> i < length batch \<or> aborted st \<Longrightarrow> chunkLoop e d N batch start i st = st"
  by (subst chunkLoop.simps) auto

lemma batchLoop_step:
  "start < length pool \<Longrightarrow> \<not> aborted st \<Longrightarrow>
   batchLoop e d thr pool start st
     = batchLoop e d thr pool (start + scanBatchSize) (batchBody e d thr pool start st)"
  by (subst batchLoop.simps) simp

lemma batchLoop_stop:
  "\<not> start < length pool \<or> aborted st \<Longrightarrow> batchLoop e d thr pool start st = st"
  by (subst batchLoop.simps) auto

lemma chunkBody_record:
  "chunkBody e d N batch start i \<lparr>scoredAll = S, aborted = False, awaits = k, trace = T\<rparr>
     = \<lparr>scoredAll = S @ scoredOf e d (take CONCURRENCY (drop i batch)),
        aborted = pressed e k, awaits = Suc k,
        trace = T @ (if pressed e k then [AbortScan] else [])
                  @ [SetProgress (min N (start + (i + CONCURRENCY))) N]\<rparr>"
  using pushScored_acc [of "map (scoreOne e d False) (take CONCURRENCY (drop i batch))" S]
  by (simp add: chunkBody_def Let_def promiseAll_eq_map suspend_def scoredOf_def)

lemma batchBody_record:
  "batchBody e d thr pool start st =
     (let st1 = chunkLoop e d (length pool)
                  (take (min (length pool) (start + scanBatchSize) - start) (drop start pool))
                  start 0 st
      in \<lparr>scoredAll = keepTop (scoredAll st1), aborted = aborted st1, awaits = awaits st1,
          trace = trace st1 @ [SetMatches (take 8 (sortBy byScoreDesc
                    (filter (\<lambda>x. js_ge (score x) (Num thr)) (keepTop (scoredAll st1)))))]\<rparr>)"
  by (simp add: batchBody_def Let_def publishStep_def)

lemma scoredOf_Cons:
  "scoredOf e d (p # ps) =
     (case scoreOne e d False p of
        None \<Rightarrow> scoredOf e d ps
      | Some m \<Rightarrow> (if js_ge (score m) (Num 0) then m # scoredOf e d ps else scoredOf e d ps))"
  using pushScored_acc [of "map (scoreOne e d False) ps" "[the (scoreOne e d False p)]"]
  by (auto simp: scoredOf_def split: option.splits)

lemmas score_simps =
  scoreOne_def bestScore_def bestStep_def cosineSimilarity_faceapi_def Let_def
  photoA_def photoB_def photoC_def photoD_def matchA_def matchB_def matchD_def scoreSame_def

lemma demo_scoreOne:
  "scoreOne demoEnv [Num 1, Num 0] False photoA = Some matchA"
  "scoreOne demoEnv [Num 1, Num 0] False photoB = Some matchB"
  "scoreOne demoEnv [Num 1, Num 0] False photoC = None"
  "scoreOne demoEnv [Num 1, Num 0] False photoD = Some matchD"
  by (simp_all add: score_simps demoEnv_def)

lemma demo_sort: "sortBy byScoreDesc [matchA, matchD] = [matchA, matchD]"
  by (simp add: sortBy_def byScoreDesc_def js_sub_def matchA_def matchD_def scoreSame_def)

lemma demo_scores:
  "js_ge (score matchA) (Num 0)" "\<not> js_ge (score matchB) (Num 0)" "js_ge (score matchD) (Num 0)"
  "js_ge (score matchA) (Num (1 / 2))" "js_ge (score matchD) (Num (1 / 2))"
  "js_gt (Num 0) (score matchB)"
  by (simp_all add: matchA_def matchB_def matchD_def scoreSame_def)

lemma keepTop_short: "length arr \<le> TOP_KEEP \<Longrightarrow> keepTop arr = sortBy byScoreDesc arr"
  by (simp add: keepTop_def Let_def length_sortBy)

lemmas loop_simps =
  chunkLoop_step chunkLoop_stop chunkBody_record batchLoop_step batchLoop_stop batchBody_record
  CONCURRENCY_def scanBatchSize_def scanMax_def TOP_KEEP_def keepTop_short
  scoredOf_Cons scoredOf_Nil Let_def runMatching_unfold suspend_def

lemma demo_run:
  "runMatching demoEnv (1 / 2) [photoA, photoB, photoC, photoD] =
     (Completed, \<lparr>scoredAll = [matchA, matchD], aborted = False, awaits = 3,
        trace = [SetMatches [], SetProgress 0 4, SetProgress 2 4, SetProgress 4 4,
                 SetMatches [matchA, matchD], SetMatches [matchA, matchD]]\<rparr>)"
proof -
  have p: "pressed demoEnv k = False" for k by (simp add: demoEnv_def)
  have s: "selfie demoEnv = SelfieDesc [Num 1, Num 0]" by (simp add: demoEnv_def)
  have ch: "chunkLoop demoEnv [Num 1, Num 0] N [photoA, photoB, photoC, photoD] 0 0
      \<lparr>scoredAll = [], aborted = False, awaits = k, trace = T\<rparr>
   = \<lparr>scoredAll = [matchA, matchD], aborted = False, awaits = Suc (Suc k),
      trace = T @ [SetProgress (min N 2) N, SetProgress (min N 4) N]\<rparr>" for N k T
    by (simp add: loop_simps p demo_scoreOne demo_scores) (simp add: eval_nat_numeral)
  show ?thesis
    by (simp add: loop_simps s p ch demo_sort demo_scores)
qed

lemma outage_scoreOne: "scoreOne outageEnv d False p = None"
  by (simp add: scoreOne_def outageEnv_def)

lemma outage_run:
  "runMatching outageEnv (1 / 2) [photoA, photoB, photoC] =
     (Completed, \<lparr>scoredAll = [], aborted = False, awaits = 3,
        trace = [SetMatches [], SetProgress 0 3, SetProgress 2 3, SetProgress 3 3,
                 SetMatches [], SetMatches []]\<rparr>)"
proof -
  have p: "pressed outageEnv k = False" for k by (simp add: outageEnv_def demoEnv_def)
  have s: "selfie outageEnv = SelfieDesc [Num 1, Num 0]" by (simp add: outageEnv_def demoEnv_def)
  have ch: "chunkLoop outageEnv [Num 1, Num 0] N [photoA, photoB, photoC] 0 0
      \<lparr>scoredAll = [], aborted = False, awaits = k, trace = T\<rparr>
   = \<lparr>scoredAll = [], aborted = False, awaits = Suc (Suc k),
      trace = T @ [SetProgress (min N 2) N, SetProgress (min N 4) N]\<rparr>" for N k T
    by (simp add: loop_simps p outage_scoreOne) (simp add: eval_nat_numeral)
  show ?thesis
    by (simp add: loop_simps s p ch sortBy_def)
qed

lemma cancel_run:
  "runMatching cancelEnv (1 / 2) [photoA] =
     (Cancelled, \<lparr>scoredAll = [matchA], aborted = True, awaits = 2,
        trace = [SetMatches [], SetProgress 0 1, AbortScan, SetProgress 1 1,
                 SetMatches [matchA]]\<rparr>)"
proof -
  have p: "pressed cancelEnv k = (k = 1)" for k by (simp add: cancelEnv_def demoEnv_def)
  have s: "selfie cancelEnv = SelfieDesc [Num 1, Num 0]" by (simp add: cancelEnv_def demoEnv_def)
  have sc: "scoreOne cancelEnv [Num 1, Num 0] False photoA = Some matchA"
    by (simp add: score_simps cancelEnv_def demoEnv_def)
  have so: "sortBy byScoreDesc [matchA] = [matchA]" by (simp add: sortBy_def)
  have ch: "chunkLoop cancelEnv [Num 1, Num 0] N [photoA] 0 0
      \<lparr>scoredAll = [], aborted = False, awaits = Suc 0, trace = T\<rparr>
   = \<lparr>scoredAll = [matchA], aborted = True, awaits = 2,
      trace = T @ [AbortScan, SetProgress (min N 2) N]\<rparr>" for N T
    by (simp add: loop_simps p sc demo_scores)
  show ?thesis
    by (simp add: loop_simps s p ch so demo_scores)
qed

section \<open>Results on the matcher\<close>

lemma scoredOf_all_None:
  "\<forall>p\<in>set ps. scoreOne e d False p = None \<Longrightarrow> scoredOf e d ps = []"
  by (induction ps) (simp_all add: scoredOf_Nil scoredOf_Cons)

text \<open>
  An analysis that throws and an analysis that finds no face both make \<open>scoreOne\<close> return
  \<open>null\<close>, and nothing else does while the flag is not set.
\<close>

lemma scoreOne_failed:
  "analyze e p = AnalyzeThrows \<or> analyze e p = Detections [] \<Longrightarrow> scoreOne e d ab p = None"
  by (auto simp: scoreOne_def)

lemma scoreOne_None_iff:
  "scoreOne e d False p = None \<longleftrightarrow> analyze e p = AnalyzeThrows \<or> analyze e p = Detections []"
  by (auto simp: scoreOne_def split: analysis.splits)

text \<open>
  Claim C2. A candidate whose analysis throws or finds no face has no entry in the best-of
  list nor in any published result, whatever the cancellations. When the analysis of every
  candidate throws or finds no face and nobody cancels, the session completes, its best-of
  list and every published result are empty, and the last published progress is the whole
  pool.
\<close>

theorem failed_candidates_excluded:
  assumes run: "runMatching e thr photos = (out, st)" and sd: "selfie e = SelfieDesc d"
  shows "(analyze e p = AnalyzeThrows \<or> analyze e p = Detections [] \<longrightarrow>
            (\<forall>ms\<in>set (scoredAll st # publishedMatches (trace st)).
               \<forall>m\<in>set ms. \<not> (path m = path p \<and> url m = url p)))
       \<and> (photos \<noteq> []
          \<and> (\<forall>p\<in>set photos. analyze e p = AnalyzeThrows \<or> analyze e p = Detections [])
          \<and> (\<forall>k. \<not> pressed e k) \<longrightarrow>
            out = Completed \<and> scoredAll st = []
            \<and> (\<forall>ms\<in>set (publishedMatches (trace st)). ms = [])
            \<and> last (publishedProgress (trace st))
                = (min scanMax (length photos), min scanMax (length photos)))"
proof (intro conjI impI)
  note items = runMatching_items [OF run]
  have from_pool: "\<exists>q. q \<in> set photos \<and> scoreOne e d False q = Some m"
    if "ms \<in> set (scoredAll st # publishedMatches (trace st))" "m \<in> set ms" for ms m
  proof -
    from that items
    obtain d' q where "selfie e = SelfieDesc d'" "q \<in> set photos" "scoreOne e d' False q = Some m"
      by auto blast+
    with sd show ?thesis by auto
  qed
  {
    assume "analyze e p = AnalyzeThrows \<or> analyze e p = Detections []"
    then have none: "scoreOne e d False p = None" by (rule scoreOne_failed)
    show "\<forall>ms\<in>set (scoredAll st # publishedMatches (trace st)).
        \<forall>m\<in>set ms. \<not> (path m = path p \<and> url m = url p)"
    proof (intro ballI notI)
      fix ms m assume "ms \<in> set (scoredAll st # publishedMatches (trace st))" "m \<in> set ms"
        and same: "path m = path p \<and> url m = url p"
      from from_pool [OF this(1,2)] obtain q where q: "scoreOne e d False q = Some m" by blast
      from scoreOne_Some [OF q] same have "q = p" by (intro PhotoItem.equality) simp_all
      with q none show False by simp
    qed
  }
  {
    assume failing: "photos \<noteq> []
        \<and> (\<forall>p\<in>set photos. analyze e p = AnalyzeThrows \<or> analyze e p = Detections [])
        \<and> (\<forall>k. \<not> pressed e k)"
    then have outage: "photos \<noteq> [] \<and> (\<forall>p\<in>set photos. scoreOne e d False p = None)
        \<and> (\<forall>k. \<not> pressed e k)"
      by (simp add: scoreOne_failed)
    then have "scoredOf e d (take scanMax photos) = []"
      by (intro scoredOf_all_None) (auto dest: in_set_takeD)
    with runMatching_no_abort [of photos e d thr] outage sd run
    show "out = Completed" "scoredAll st = []"
      "last (publishedProgress (trace st)) = (min scanMax (length photos), min scanMax (length photos))"
      by auto
    show "\<forall>ms\<in>set (publishedMatches (trace st)). ms = []"
    proof
      fix ms assume ms: "ms \<in> set (publishedMatches (trace st))"
      show "ms = []"
      proof (cases ms)
        case (Cons m rest)
        with ms from_pool [of ms m] outage show ?thesis by auto
      qed simp
    qed
  }
qed

lemma demo_env:
  "selfie demoEnv = SelfieDesc [Num 1, Num 0]"
  "analyze demoEnv photoC = AnalyzeThrows"
  by (simp_all add: demoEnv_def photoC_def)

lemma outage_env:
  "selfie outageEnv = SelfieDesc [Num 1, Num 0]"
  "analyze outageEnv p = AnalyzeThrows"
  "pressed outageEnv k = False"
  by (simp_all add: outageEnv_def demoEnv_def)

theorem failed_candidates_excluded_witness:
  "runMatching demoEnv (1 / 2) [photoA, photoB, photoC, photoD]
     = (Completed, \<lparr>scoredAll = [matchA, matchD], aborted = False, awaits = 3,
          trace = [SetMatches [], SetProgress 0 4, SetProgress 2 4, SetProgress 4 4,
                   SetMatches [matchA, matchD], SetMatches [matchA, matchD]]\<rparr>)
   \<and> analyze demoEnv photoC = AnalyzeThrows
   \<and> path matchA \<noteq> path photoC \<and> path matchD \<noteq> path photoC
   \<and> runMatching outageEnv (1 / 2) [photoA, photoB, photoC]
     = (Completed, \<lparr>scoredAll = [], aborted = False, awaits = 3,
          trace = [SetMatches [], SetProgress 0 3, SetProgress 2 3, SetProgress 3 3,
                   SetMatches [], SetMatches []]\<rparr>)
   \<and> analyze outageEnv photoA = AnalyzeThrows \<and> analyze outageEnv photoB = AnalyzeThrows
   \<and> analyze outageEnv photoC = AnalyzeThrows
   \<and> last (publishedProgress [SetMatches [], SetProgress 0 3, SetProgress 2 3, SetProgress 3 3,
                   SetMatches [], SetMatches []]) = (3, 3)"
  using failed_candidates_excluded [OF demo_run demo_env(1), of photoC]
    failed_candidates_excluded [OF outage_run outage_env(1), of photoC]
    demo_run outage_run demo_env(2) outage_env(2,3)
  by (simp add: matchA_def matchD_def photoC_def)

text \<open>
  Claim C3. Two sessions that differ only in the time the workers take give the same
  result, whatever it is. In a session that is not cancelled the final result is the first
  eight entries that reach the threshold of the admitted scores of the pool, stably sorted
  by descending score: it is sorted, and among the entries of one score it holds the
  earliest of the pool, in the order of the pool.
\<close>

theorem matching_deterministic:
  assumes "selfie e1 = selfie e2" and "analyze e1 = analyze e2" and "pressed e1 = pressed e2"
  shows "runMatching e1 thr photos = runMatching e2 thr photos
       \<and> (photos \<noteq> [] \<and> selfie e1 = SelfieDesc d \<and> (\<forall>k. \<not> pressed e1 k) \<longrightarrow>
            (\<exists>st. runMatching e1 thr photos = (Completed, st)
               \<and> last (publishedMatches (trace st))
                   = take 8 (filter (\<lambda>x. js_ge (score x) (Num thr))
                       (sort_key negScore (scoredOf e1 d (take scanMax photos))))
               \<and> sorted (map negScore (last (publishedMatches (trace st))))
               \<and> (\<forall>s. prefix (filter (\<lambda>m. negScore m = s) (last (publishedMatches (trace st))))
                          (filter (\<lambda>m. negScore m = s) (scoredOf e1 d (take scanMax photos))))))"
proof (intro conjI impI)
  show "runMatching e1 thr photos = runMatching e2 thr photos"
    using assms by (rule runMatching_timing)
next
  assume h: "photos \<noteq> [] \<and> selfie e1 = SelfieDesc d \<and> (\<forall>k. \<not> pressed e1 k)"
  define S where "S = scoredOf e1 d (take scanMax photos)"
  define final where "final = take 8 (filter (\<lambda>x. js_ge (score x) (Num thr)) (sort_key negScore S))"
  from runMatching_no_abort [of photos e1 d thr] h
  obtain st where st: "runMatching e1 thr photos = (Completed, st)"
    "last (publishedMatches (trace st)) = final"
    unfolding final_def S_def by blast
  have fin: "list_all (\<lambda>m. isFinite (score m)) S" unfolding S_def by (rule finite_scoredOf)
  have "sorted (map negScore (filter (\<lambda>x. js_ge (score x) (Num thr)) (sort_key negScore S)))"
    by (rule sorted_filter) simp
  then have sorted: "sorted (map negScore final)"
    unfolding final_def by (simp add: take_map [symmetric])
  have pre: "prefix (filter (\<lambda>m. negScore m = s) final) (filter (\<lambda>m. negScore m = s) S)" for s
  proof -
    have "prefix final (filter (\<lambda>x. js_ge (score x) (Num thr)) (sort_key negScore S))"
      unfolding final_def by (rule take_is_prefix)
    then have 1: "prefix (filter (\<lambda>m. negScore m = s) final)
        (filter (\<lambda>m. negScore m = s) (filter (\<lambda>x. js_ge (score x) (Num thr)) (sort_key negScore S)))"
      by (rule filter_mono_prefix)
    have "filter (\<lambda>m. negScore m = s) (filter (\<lambda>x. js_ge (score x) (Num thr)) (sort_key negScore S))
        = filter (\<lambda>x. js_ge (score x) (Num thr)) (filter (\<lambda>m. negScore m = s) (sort_key negScore S))"
      by (simp add: conj_commute)
    also have "\<dots> = filter (\<lambda>x. js_ge (score x) (Num thr)) (filter (\<lambda>m. negScore m = s) S)"
      by (simp only: sort_key_stable)
    also have "\<dots> = (if s \<le> - thr then filter (\<lambda>m. negScore m = s) S else [])"
    proof -
      have "js_ge (score x) (Num thr) = (s \<le> - thr)"
        if "x \<in> set (filter (\<lambda>m. negScore m = s) S)" for x
        using that fin by (auto simp: list_all_iff ge_threshold_negScore)
      then have *: "\<forall>x\<in>set (filter (\<lambda>m. negScore m = s) S). js_ge (score x) (Num thr) = (s \<le> - thr)"
        by blast
      show ?thesis
      proof (cases "s \<le> - thr")
        case True
        with * have "\<forall>x\<in>set (filter (\<lambda>m. negScore m = s) S). js_ge (score x) (Num thr)" by blast
        then have "filter (\<lambda>x. js_ge (score x) (Num thr)) (filter (\<lambda>m. negScore m = s) S)
            = filter (\<lambda>m. negScore m = s) S" by (rule filter_True)
        with True show ?thesis by simp
      next
        case False
        with * have "\<forall>x\<in>set (filter (\<lambda>m. negScore m = s) S). \<not> js_ge (score x) (Num thr)" by blast
        then have "filter (\<lambda>x. js_ge (score x) (Num thr)) (filter (\<lambda>m. negScore m = s) S) = []"
          by (rule filter_False)
        with False show ?thesis by simp
      qed
    qed
    finally show ?thesis using 1 by (auto split: if_splits)
  qed
  show "\<exists>st. runMatching e1 thr photos = (Completed, st)
      \<and> last (publishedMatches (trace st))
          = take 8 (filter (\<lambda>x. js_ge (score x) (Num thr))
              (sort_key negScore (scoredOf e1 d (take scanMax photos))))
      \<and> sorted (map negScore (last (publishedMatches (trace st))))
      \<and> (\<forall>s. prefix (filter (\<lambda>m. negScore m = s) (last (publishedMatches (trace st))))
                 (filter (\<lambda>m. negScore m = s) (scoredOf e1 d (take scanMax photos))))"
    using st sorted pre unfolding final_def S_def by auto
qed

theorem matching_deterministic_witness:
  "runMatching demoEnv (1 / 2) [photoA, photoB, photoC, photoD]
     = runMatching (demoEnv\<lparr>latency := (\<lambda>p. 0)\<rparr>) (1 / 2) [photoA, photoB, photoC, photoD]
   \<and> runMatching demoEnv (1 / 2) [photoA, photoB, photoC, photoD]
     = (Completed, \<lparr>scoredAll = [matchA, matchD], aborted = False, awaits = 3,
          trace = [SetMatches [], SetProgress 0 4, SetProgress 2 4, SetProgress 4 4,
                   SetMatches [matchA, matchD], SetMatches [matchA, matchD]]\<rparr>)
   \<and> score matchA = score matchD
   \<and> scoredOf demoEnv [Num 1, Num 0] [photoA, photoB, photoC, photoD] = [matchA, matchD]"
proof -
  have eq: "runMatching demoEnv (1 / 2) [photoA, photoB, photoC, photoD]
      = runMatching (demoEnv\<lparr>latency := (\<lambda>p. 0)\<rparr>) (1 / 2) [photoA, photoB, photoC, photoD]"
    using matching_deterministic [of demoEnv "demoEnv\<lparr>latency := (\<lambda>p. 0)\<rparr>" "1 / 2"
        "[photoA, photoB, photoC, photoD]" "[Num 1, Num 0]"]
    by simp
  have sc: "scoredOf demoEnv [Num 1, Num 0] [photoA, photoB, photoC, photoD] = [matchA, matchD]"
    by (simp add: scoredOf_Cons scoredOf_Nil demo_scoreOne demo_scores)
  have tie: "score matchA = score matchD" by (simp add: matchA_def matchD_def)
  from eq demo_run sc tie show ?thesis by simp
qed

text \<open>
  Claim C4 fails on the code. With \<open>abortScan\<close> called while the only chunk of a pool of one
  photo is awaited, no further chunk or batch starts and the session ends cancelled, but
  the chunk in flight is still merged and the publish step of its batch still runs: the
  result list \<open>[]\<close> published before the cancellation is replaced by a new one after it.
\<close>

theorem cancel_replaces_results:
  "runMatching cancelEnv (1 / 2) [photoA] =
     (Cancelled, \<lparr>scoredAll = [matchA], aborted = True, awaits = 2,
        trace = [SetMatches [], SetProgress 0 1, AbortScan, SetProgress 1 1,
                 SetMatches [matchA]]\<rparr>)"
  by (rule cancel_run)

text \<open>
  Claim C6. In the updates that one session publishes, \<open>progress.done\<close> never decreases and
  never exceeds \<open>progress.total\<close>.
\<close>

theorem progress_monotone:
  assumes "runMatching e thr photos = (out, st)"
  shows "sorted (map fst (publishedProgress (trace st)))
       \<and> (\<forall>(d, t)\<in>set (publishedProgress (trace st)). d \<le> t)"
  using runMatching_progress [OF assms] unfolding progressOK_def by fastforce

theorem progress_monotone_witness:
  "runMatching demoEnv (1 / 2) [photoA, photoB, photoC, photoD]
     = (Completed, \<lparr>scoredAll = [matchA, matchD], aborted = False, awaits = 3,
          trace = [SetMatches [], SetProgress 0 4, SetProgress 2 4, SetProgress 4 4,
                   SetMatches [matchA, matchD], SetMatches [matchA, matchD]]\<rparr>)
   \<and> publishedProgress [SetMatches [], SetProgress 0 4, SetProgress 2 4, SetProgress 4 4,
                   SetMatches [matchA, matchD], SetMatches [matchA, matchD]]
       = [(0, 4), (2, 4), (4, 4)]
   \<and> sorted (map fst [(0 :: nat, 4 :: nat), (2, 4), (4, 4)])"
  using progress_monotone [OF demo_run] demo_run by simp



section \<open>Results on the vector math, the threshold policy and the descriptor source\<close>

subsection \<open>Similarity of a vector with itself\<close>

lemma dotProduct_self: "dotProduct xs xs = sqNorm xs"
  unfolding dotProduct_def sqNorm_def by (induction xs) auto

lemma sqNorm_pos: "(\<exists>x\<in>set xs. x \<noteq> 0) \<Longrightarrow> 0 < sqNorm xs"
proof (induction xs)
  case Nil
  then show ?case by simp
next
  case (Cons a xs)
  have tl: "0 \<le> sqNorm xs" by (rule sqNorm_nonneg)
  show ?case
  proof (cases "a = 0")
    case True
    with Cons have "0 < sqNorm xs" by auto
    with True show ?thesis by (simp add: sqNorm_def)
  next
    case False
    then have "0 < a * a" by (auto simp: zero_less_mult_iff)
    with tl show ?thesis by (simp add: sqNorm_def)
  qed
qed

lemma cosine_self: "0 < sqNorm xs \<Longrightarrow> cosine xs xs = 1"
  by (simp add: cosine_def euclidNorm_def dotProduct_self)

text \<open>
  Claim C9, as the code has it. For a finite vector that is not zero, the similarity with
  itself is exactly \<open>1\<close> in \<open>lib/similarity.ts\<close> (for an array whose elements coerce to the
  vector) and in the embedding variant. In the
  face-api variant it is \<open>n / (n + 1e-10)\<close> for the squared norm \<open>n\<close>: below \<open>1\<close>, and
  within \<open>1e-10 / n\<close> of it.
\<close>

theorem self_similarity:
  "(mapNumber toNumber av = Inr a \<and> list_all isFinite a \<and> (\<exists>x\<in>set a. numVal x \<noteq> 0) \<longrightarrow>
      cosineSimilarity toNumber (Arr av) (Arr av) = Inr (Num 1))
   \<and> ((\<exists>x\<in>set xs. x \<noteq> 0) \<longrightarrow>
        cosineSimilarity_embedding (map Num xs) (map Num xs) = Num 1
        \<and> cosineSimilarity_faceapi (map Num xs) (map Num xs)
            = Num (sqNorm xs / (sqNorm xs + 1 / 10 ^ 10))
        \<and> 1 - (1 / 10 ^ 10) / sqNorm xs < sqNorm xs / (sqNorm xs + 1 / 10 ^ 10)
        \<and> sqNorm xs / (sqNorm xs + 1 / 10 ^ 10) < 1)"
proof (intro conjI impI)
  assume h: "mapNumber toNumber av = Inr a \<and> list_all isFinite a \<and> (\<exists>x\<in>set a. numVal x \<noteq> 0)"
  then have ne: "a \<noteq> []" by auto
  from h have "\<exists>x\<in>set (map numVal a). x \<noteq> 0" by auto
  then have "0 < sqNorm (map numVal a)" by (rule sqNorm_pos)
  then have "cosine (map numVal a) (map numVal a) = 1" by (rule cosine_self)
  with h ne have "similarity_spec a a = Num 1" by (simp add: similarity_spec_def)
  with h show "cosineSimilarity toNumber (Arr av) (Arr av) = Inr (Num 1)"
    by (simp add: cosineSimilarity_coerced)
next
  assume nz: "\<exists>x\<in>set xs. x \<noteq> 0"
  then have pos: "0 < sqNorm xs" by (rule sqNorm_pos)
  from nz have ne: "xs \<noteq> []" by auto
  show "cosineSimilarity_embedding (map Num xs) (map Num xs) = Num 1"
    using embedding_finite [of xs xs] ne cosine_self [OF pos] by simp
  show "cosineSimilarity_faceapi (map Num xs) (map Num xs)
      = Num (sqNorm xs / (sqNorm xs + 1 / 10 ^ 10))"
    using faceapi_finite [of xs xs] pos by (simp add: dotProduct_self euclidNorm_def)
  have eps: "(0::real) < 1 / 10 ^ 10" by simp
  define n where "n = sqNorm xs"
  define eps' :: real where "eps' = 1 / 10 ^ 10"
  have n: "0 < n" and e: "0 < eps'" using pos by (simp_all add: n_def eps'_def)
  have "n / (n + eps') < 1" using n e by simp
  moreover have "1 - eps' / n < n / (n + eps')"
  proof -
    have "n / (n + eps') = 1 - eps' / (n + eps')" using n e by (simp add: field_simps)
    moreover have "eps' / (n + eps') < eps' / n" using n e by (simp add: frac_less2)
    ultimately show ?thesis by simp
  qed
  ultimately show "1 - (1 / 10 ^ 10) / sqNorm xs < sqNorm xs / (sqNorm xs + 1 / 10 ^ 10)"
    "sqNorm xs / (sqNorm xs + 1 / 10 ^ 10) < 1"
    unfolding n_def eps'_def by simp_all
qed

theorem self_similarity_witness:
  "cosineSimilarity Number_of (Arr [JsNumber (Num 3), JsNumber (Num 4)])
       (Arr [JsNumber (Num 3), JsNumber (Num 4)]) = Inr (Num 1)
   \<and> cosineSimilarity_embedding [Num 3, Num 4] [Num 3, Num 4] = Num 1
   \<and> cosineSimilarity_faceapi [Num 3, Num 4] [Num 3, Num 4] = Num (25 / (25 + 1 / 10 ^ 10))"
  using self_similarity [of Number_of "[JsNumber (Num 3), JsNumber (Num 4)]" "[Num 3, Num 4]"
      "[3, 4]"]
  by (simp add: sqNorm_def)

text \<open>
  The claim as written fails on the face-api variant: for the vector \<open>(1e-5)\<close> the
  similarity with itself is one half.
\<close>

theorem faceapi_self_similarity_counterexample:
  "cosineSimilarity_faceapi [Num (1 / 100000)] [Num (1 / 100000)] = Num (1 / 2)"
  by (simp add: cosineSimilarity_faceapi_def Let_def)

subsection \<open>The contract of the three similarity functions\<close>









subsection \<open>The threshold policy\<close>












subsection \<open>The descriptor source\<close>

lemma findBest_Cons:
  "f \<noteq> JNull \<Longrightarrow> findBest (f # fs) = (if hasEmbedding f then Inr (Some f) else findBest fs)"
  by (cases f) simp_all

lemma findBest_find:
  "JNull \<notin> set (takeWhile (\<lambda>f. \<not> hasEmbedding f) faces)
   \<Longrightarrow> findBest faces = Inr (find hasEmbedding faces)"
proof (induction faces)
  case Nil
  then show ?case by simp
next
  case (Cons f faces)
  have "\<not> hasEmbedding JNull" by (simp add: hasEmbedding_def)
  with Cons.prems have "f \<noteq> JNull" by auto
  with Cons show ?case by (auto simp: findBest_Cons split: if_splits)
qed

lemma POST_ok:
  "JNull \<notin> set (takeWhile (\<lambda>f. \<not> hasEmbedding f) (facesOf data)) \<Longrightarrow>
   POST True (Multipart True) (Upstream True status (Some data)) =
     RouteOk (length (facesOf data)) (facesOf data)
       (case find hasEmbedding (facesOf data) of None \<Rightarrow> None
        | Some f \<Rightarrow> getProp (Some f) ''embedding'')
       (if facesOf data \<noteq> [] then ''OK'' else ''NO_FACE'')"
  by (simp add: POST_def Let_def findBest_find)

text \<open>
  Claim C7, as the code has it. The route answers a body that does not parse and a status
  that is not a success with the error 502; a success whose body parses but has no array
  \<open>faces\<close> is answered like an empty list of faces, with the message \<open>NO_FACE\<close>, and the
  route gives that message in no other case than an empty or missing list. \<open>embedFace\<close>
  throws its no-face error exactly when the call succeeded and \<open>faces\<close> is the empty array.
\<close>

theorem failure_classification:
  "POST True (Multipart True) (Upstream r_ok status None) = RouteError 502 ParseFailed
   \<and> (\<not> r_ok \<longrightarrow>
        POST True (Multipart True) (Upstream r_ok status (Some data))
          = RouteError 502 (FaceServerError status))
   \<and> (facesOf data = [] \<longrightarrow>
        POST True (Multipart True) (Upstream True status (Some data)) = RouteOk 0 [] None ''NO_FACE'')
   \<and> (POST base req up = RouteOk n fs emb ''NO_FACE'' \<longrightarrow>
        (\<exists>status' data'. up = Upstream True status' (Some data') \<and> facesOf data' = []))
   \<and> (embedFace reply = Inl NoFaceFound \<longleftrightarrow>
        (\<exists>j. reply = Reply True (Some j) \<and> truthyJ (getProp (Some j) ''ok'')
            \<and> getProp (getProp (Some j) ''data'') ''faces'' = Some (JArr [])))"
proof (intro conjI impI)
  show "POST True (Multipart True) (Upstream r_ok status None) = RouteError 502 ParseFailed"
    by (simp add: POST_def)
  show "POST True (Multipart True) (Upstream r_ok status (Some data))
      = RouteError 502 (FaceServerError status)" if "\<not> r_ok"
    using that by (simp add: POST_def)
  show "POST True (Multipart True) (Upstream True status (Some data)) = RouteOk 0 [] None ''NO_FACE''"
    if "facesOf data = []"
    using that by (simp add: POST_def)
  show "\<exists>status' data'. up = Upstream True status' (Some data') \<and> facesOf data' = []"
    if "POST base req up = RouteOk n fs emb ''NO_FACE''"
    using that
    by (auto simp: POST_def Let_def split: if_splits request.splits upstream.splits
        option.splits sum.splits)
  show "embedFace reply = Inl NoFaceFound \<longleftrightarrow>
      (\<exists>j. reply = Reply True (Some j) \<and> truthyJ (getProp (Some j) ''ok'')
          \<and> getProp (getProp (Some j) ''data'') ''faces'' = Some (JArr []))"
  proof (cases reply)
    case FetchRejects
    then show ?thesis by (simp add: embedFace_def)
  next
    case (Reply res_ok parsed)
    show ?thesis
    proof (cases parsed)
      case None
      with Reply show ?thesis by (simp add: embedFace_def)
    next
      case (Some j)
      with Reply show ?thesis
        by (auto simp: embedFace_def Let_def split: option.splits json.splits list.splits)
    qed
  qed
qed

theorem failure_classification_witness:
  "POST True (Multipart True) (Upstream False 500 (Some (JObj []))) = RouteError 502 (FaceServerError 500)
   \<and> facesOf (JObj []) = []
   \<and> POST True (Multipart True) (Upstream True 200 (Some (JObj []))) = RouteOk 0 [] None ''NO_FACE''
   \<and> embedFace (Reply True (Some apiNoFaces)) = Inl NoFaceFound"
  using failure_classification [of False 500 "JObj []" True "Multipart True"
      "Upstream True 200 (Some (JObj []))" 0 "[]" None "Reply True (Some apiNoFaces)"]
    failure_classification [of True 200 "JObj []" True "Multipart True"
      "Upstream True 200 (Some (JObj []))" 0 "[]" None "Reply True (Some apiNoFaces)"]
  by (simp add: facesOf_def apiNoFaces_def)

text \<open>
  The claim as written fails on the route: a success of the face server whose body is the
  object \<open>{}\<close>, without the expected \<open>faces\<close>, is reported as no face.
\<close>

theorem malformed_success_counterexample:
  "POST True (Multipart True) (Upstream True 200 (Some (JObj []))) = RouteOk 0 [] None ''NO_FACE''"
  by (simp add: POST_def facesOf_def)

text \<open>
  Claim C8, as the code has it. The route returns the embedding of the first face, in the
  order of the response, that has an embedding array that is not empty, and \<open>null\<close> when
  there is none, provided no entry before that face is \<open>null\<close>. \<open>embedFace\<close> of \<open>lib/faceServer.ts\<close> looks at the first face only: it
  returns its embedding when that is an array, empty or not, and throws otherwise,
  whatever the other faces hold.
\<close>

theorem face_selection:
  "(JNull \<notin> set (takeWhile (\<lambda>f. \<not> hasEmbedding f) (facesOf data)) \<longrightarrow>
      POST True (Multipart True) (Upstream True status (Some data)) =
        RouteOk (length (facesOf data)) (facesOf data)
          (case find hasEmbedding (facesOf data) of None \<Rightarrow> None
           | Some f \<Rightarrow> getProp (Some f) ''embedding'')
          (if facesOf data \<noteq> [] then ''OK'' else ''NO_FACE''))
   \<and> (truthyJ (getProp (Some j) ''ok'')
        \<and> getProp (getProp (Some j) ''data'') ''faces'' = Some (JArr (f # rest)) \<longrightarrow>
        embedFace (Reply True (Some j)) =
          (case getProp (Some f) ''embedding'' of
             Some (JArr e) \<Rightarrow> Inr e
           | _ \<Rightarrow> Inl NoEmbeddingArray))"
proof (intro conjI impI)
  assume "JNull \<notin> set (takeWhile (\<lambda>f. \<not> hasEmbedding f) (facesOf data))"
  then show "POST True (Multipart True) (Upstream True status (Some data)) =
      RouteOk (length (facesOf data)) (facesOf data)
        (case find hasEmbedding (facesOf data) of None \<Rightarrow> None
         | Some f \<Rightarrow> getProp (Some f) ''embedding'')
        (if facesOf data \<noteq> [] then ''OK'' else ''NO_FACE'')"
    by (rule POST_ok)
next
  assume "truthyJ (getProp (Some j) ''ok'')
      \<and> getProp (getProp (Some j) ''data'') ''faces'' = Some (JArr (f # rest))"
  then show "embedFace (Reply True (Some j)) =
      (case getProp (Some f) ''embedding'' of
         Some (JArr e) \<Rightarrow> Inr e
       | _ \<Rightarrow> Inl NoEmbeddingArray)"
    by (auto simp: embedFace_def Let_def split: option.splits json.splits)
qed

theorem face_selection_witness:
  "facesOf (JObj [(''faces'', JArr [faceEmpty, faceOne])]) = [faceEmpty, faceOne]
   \<and> POST True (Multipart True) (Upstream True 200 (Some (JObj [(''faces'', JArr [faceEmpty, faceOne])])))
       = RouteOk 2 [faceEmpty, faceOne] (Some (JArr [JNum 1])) ''OK''
   \<and> embedFace (Reply True (Some apiTwoFaces)) = Inr []"
  using face_selection [of "JObj [(''faces'', JArr [faceEmpty, faceOne])]" 200 apiTwoFaces
      faceEmpty "[faceOne]"]
  by (simp add: facesOf_def faceEmpty_def faceOne_def apiTwoFaces_def hasEmbedding_def)

text \<open>
  The claim as written fails on \<open>embedFace\<close>: of two faces, the first with an empty
  embedding and the second with the embedding \<open>[1]\<close>, it returns the empty one.
\<close>

theorem first_face_counterexample:
  "find hasEmbedding [faceEmpty, faceOne] = Some faceOne
   \<and> getProp (Some faceOne) ''embedding'' = Some (JArr [JNum 1])
   \<and> embedFace (Reply True (Some apiTwoFaces)) = Inr []"
  by (simp add: embedFace_def Let_def faceEmpty_def faceOne_def apiTwoFaces_def hasEmbedding_def)

end
